theory Spec2Isabelle
  imports Main "HOL-Library.Multiset"
begin

section \<open>The document tree\<close>

text \<open>
  The userscript \<^verbatim>\<open>sleeplist.user.js\<close> (version 1.1.1) works on the live DOM of the
  host page. The model keeps what the script reads and writes of an element: its tag
  (lower case), its \<^verbatim>\<open>id\<close>, the tokens of its \<^verbatim>\<open>classList\<close> in order, its
  \<^verbatim>\<open>title\<close>, the resolved \<^verbatim>\<open>src\<close> of an image (empty when there is none) and
  its own text. Element children are kept in document order; text is a field of the
  element that holds it. JavaScript holds elements by reference, and the script keeps
  references across changes of the tree, so every node carries an identity \<open>nid\<close>;
  a reference is that number.
\<close>

record element =
  tag :: string
  ident :: string
  classList :: "string list"
  title :: string
  src :: string
  textContent :: string

datatype node = Node (nid: nat) (elem: element) (childNodes: "node list")

text \<open>\<^verbatim>\<open>document.createElement(t)\<close>: an element with nothing set.\<close>

definition createElement :: "string \<Rightarrow> element" where
  "createElement t =
     \<lparr>tag = t, ident = [], classList = [], title = [], src = [], textContent = []\<rparr>"

text \<open>
  The state of the page: the element trees under the \<^verbatim>\<open>Document\<close> node (one root
  element in a page, none once it has been removed), and the trees that have been taken
  out of the document but are still held by a reference of the running function.
\<close>

record dom =
  document :: "node list"
  detached :: "node list"

fun nodes :: "node \<Rightarrow> node list" where
  "nodes (Node i e ks) = Node i e ks # concat (map nodes ks)"

definition nodesL :: "node list \<Rightarrow> node list" where
  "nodesL ns = concat (map nodes ns)"

definition allNodes :: "dom \<Rightarrow> node list" where
  "allNodes d = nodesL (document d) @ nodesL (detached d)"

definition wf_dom :: "dom \<Rightarrow> bool" where
  "wf_dom d = distinct (map nid (allNodes d))"

section \<open>Constants of the script\<close>

definition hiddenClass :: string where "hiddenClass = ''msf-hidden-char''"
definition asleepClass :: string where "asleepClass = ''common--level-asleep''"
definition inactiveClass :: string where "inactiveClass = ''common--level-inactive''"
definition sleepersSectionId :: string where "sleepersSectionId = ''msf-sleepers-section''"
definition toggleClass :: string where "toggleClass = ''msf-toggle-container''"
definition noAwakeClass :: string where "noAwakeClass = ''msf-no-awake-placeholder''"
definition noSleepersClass :: string where "noSleepersClass = ''msf-no-sleepers-placeholder''"
definition charClass :: string where "charClass = ''pageroom-char''"
definition exitCharClass :: string where "exitCharClass = ''pageroom-exitchars--char''"

section \<open>Selectors and queries\<close>

text \<open>
  The selectors the script uses: compound selectors of classes, a tag and an id
  (\<^verbatim>\<open>.panelsection.pageroom--chars\<close>, \<^verbatim>\<open>h3\<close>), one descendant combinator
  (\<^verbatim>\<open>.avatar img\<close>) and one selector list
  (\<^verbatim>\<open>.common--level-asleep, .common--level-inactive\<close>). A selector is matched against
  an element together with its ancestors, nearest first: a descendant combinator looks
  at all of them, also those above the element the query starts from.
\<close>

datatype simple = ByClass string | ByTag string | ById string

fun matchesSimple :: "simple \<Rightarrow> element \<Rightarrow> bool" where
  "matchesSimple (ByClass c) e = (c \<in> set (classList e))"
| "matchesSimple (ByTag t) e = (tag e = t)"
| "matchesSimple (ById i) e = (ident e = i)"

definition matchesCompound :: "simple list \<Rightarrow> element \<Rightarrow> bool" where
  "matchesCompound c e = list_all (\<lambda>s. matchesSimple s e) c"

datatype selector = Sel "simple list" | Desc "simple list" "simple list"

fun matches :: "selector \<Rightarrow> element list \<Rightarrow> element \<Rightarrow> bool" where
  "matches (Sel c) ancs e = matchesCompound c e"
| "matches (Desc a c) ancs e = (matchesCompound c e \<and> list_ex (matchesCompound a) ancs)"

definition matchesAny :: "selector list \<Rightarrow> element list \<Rightarrow> element \<Rightarrow> bool" where
  "matchesAny ss ancs e = list_ex (\<lambda>s. matches s ancs e) ss"

text \<open>The node itself and its descendants that match, in document order.\<close>

fun selectFrom :: "selector list \<Rightarrow> element list \<Rightarrow> node \<Rightarrow> node list" where
  "selectFrom ss ancs (Node i e ks) =
     (if matchesAny ss ancs e then [Node i e ks] else []) @
     concat (map (selectFrom ss (e # ancs)) ks)"

text \<open>\<^verbatim>\<open>el.querySelectorAll(ss)\<close>: the descendants of \<open>el\<close> (never \<open>el\<close> itself).\<close>

definition querySelectorAll :: "selector list \<Rightarrow> element list \<Rightarrow> node \<Rightarrow> node list" where
  "querySelectorAll ss ancs n =
     concat (map (selectFrom ss (elem n # ancs)) (childNodes n))"

definition querySelector :: "selector list \<Rightarrow> element list \<Rightarrow> node \<Rightarrow> node option" where
  "querySelector ss ancs n =
     (case querySelectorAll ss ancs n of [] \<Rightarrow> None | x # _ \<Rightarrow> Some x)"

text \<open>\<^verbatim>\<open>document.querySelectorAll(ss)\<close>: every element of the document.\<close>

definition docQuerySelectorAll :: "selector list \<Rightarrow> dom \<Rightarrow> node list" where
  "docQuerySelectorAll ss d = concat (map (selectFrom ss []) (document d))"

definition docQuerySelector :: "selector list \<Rightarrow> dom \<Rightarrow> node option" where
  "docQuerySelector ss d =
     (case docQuerySelectorAll ss d of [] \<Rightarrow> None | x # _ \<Rightarrow> Some x)"

definition getElementById :: "string \<Rightarrow> dom \<Rightarrow> node option" where
  "getElementById i d = docQuerySelector [Sel [ById i]] d"

section \<open>Character state detection\<close>

text \<open>
  \<^verbatim>\<open>isSleeperChar(charEl)\<close>: the element itself carries one of the two level classes, or
  \<^verbatim>\<open>charEl.querySelector('.common--level-asleep, .common--level-inactive')\<close> finds a
  descendant. The selector has no combinator, so the ancestors of \<open>charEl\<close> play no
  part (\<open>selectFrom_Sel_ancs\<close> below) and the query is run with none.
\<close>

definition isSleeperChar :: "node \<Rightarrow> bool" where
  "isSleeperChar charEl =
     (if asleepClass \<in> set (classList (elem charEl)) \<or>
         inactiveClass \<in> set (classList (elem charEl)) then True
      else if querySelector [Sel [ByClass asleepClass], Sel [ByClass inactiveClass]] [] charEl \<noteq> None
      then True
      else False)"

section \<open>References into the tree\<close>

text \<open>
  A reference is looked up among all nodes the function can still reach, in the document
  or taken out of it. \<open>ancestorsOf\<close> is the chain of \<^verbatim>\<open>parentElement\<close>s of a node,
  nearest first; a query that starts at an element matches its selectors against this
  chain as well.
\<close>

fun firstSome :: "'a option list \<Rightarrow> 'a option" where
  "firstSome [] = None"
| "firstSome (None # xs) = firstSome xs"
| "firstSome (Some x # xs) = Some x"

definition lookupNode :: "nat \<Rightarrow> dom \<Rightarrow> node option" where
  "lookupNode i d = find (\<lambda>n. nid n = i) (allNodes d)"

fun pathTo :: "nat \<Rightarrow> node \<Rightarrow> element list option" where
  "pathTo i (Node j e ks) =
     (if i = j then Some []
      else map_option (\<lambda>p. p @ [e]) (firstSome (map (pathTo i) ks)))"

definition ancestorsOf :: "nat \<Rightarrow> dom \<Rightarrow> element list" where
  "ancestorsOf i d =
     (case firstSome (map (pathTo i) (document d @ detached d)) of
        None \<Rightarrow> [] | Some p \<Rightarrow> p)"

definition parentElement :: "nat \<Rightarrow> dom \<Rightarrow> node option" where
  "parentElement i d = find (\<lambda>p. i \<in> set (map nid (childNodes p))) (allNodes d)"

text \<open>
  \<^verbatim>\<open>el.nextSibling\<close>, among the element children of the parent. A node without a
  parent element has none here; the script only uses it next to \<^verbatim>\<open>el.parentElement\<close>,
  which is \<^verbatim>\<open>null\<close> then.
\<close>

definition nextSibling :: "nat \<Rightarrow> dom \<Rightarrow> nat option" where
  "nextSibling i d =
     (case parentElement i d of
        None \<Rightarrow> None
      | Some p \<Rightarrow> (case dropWhile (\<lambda>k. nid k \<noteq> i) (childNodes p) of
                    _ # n # _ \<Rightarrow> Some (nid n)
                  | _ \<Rightarrow> None))"

text \<open>\<^verbatim>\<open>el.querySelectorAll(ss)\<close> and \<^verbatim>\<open>el.querySelector(ss)\<close> for a reference \<open>el\<close>.\<close>

definition elQuerySelectorAll :: "selector list \<Rightarrow> nat \<Rightarrow> dom \<Rightarrow> node list" where
  "elQuerySelectorAll ss i d =
     (case lookupNode i d of
        None \<Rightarrow> []
      | Some n \<Rightarrow> querySelectorAll ss (ancestorsOf i d) n)"

definition elQuerySelector :: "selector list \<Rightarrow> nat \<Rightarrow> dom \<Rightarrow> node option" where
  "elQuerySelector ss i d =
     (case elQuerySelectorAll ss i d of [] \<Rightarrow> None | x # _ \<Rightarrow> Some x)"

section \<open>Changing the tree\<close>

text \<open>
  \<^verbatim>\<open>classList.remove\<close> drops the token, \<^verbatim>\<open>classList.add\<close> appends it when it is not
  there yet, \<^verbatim>\<open>classList.contains\<close> is membership.
\<close>

definition classListRemove :: "string \<Rightarrow> element \<Rightarrow> element" where
  "classListRemove c e = e\<lparr>classList := removeAll c (classList e)\<rparr>"

definition classListAdd :: "string \<Rightarrow> element \<Rightarrow> element" where
  "classListAdd c e =
     e\<lparr>classList := (if c \<in> set (classList e) then classList e else classList e @ [c])\<rparr>"

fun updateElem :: "(element \<Rightarrow> element) \<Rightarrow> nat \<Rightarrow> node \<Rightarrow> node" where
  "updateElem f i (Node j e ks) =
     Node j (if j = i then f e else e) (map (updateElem f i) ks)"

definition updateAt :: "(element \<Rightarrow> element) \<Rightarrow> nat \<Rightarrow> dom \<Rightarrow> dom" where
  "updateAt f i d =
     \<lparr>document = map (updateElem f i) (document d),
      detached = map (updateElem f i) (detached d)\<rparr>"

text \<open>Taking the child with identity \<open>i\<close> out of a tree, wherever it is.\<close>

fun detach :: "nat \<Rightarrow> node \<Rightarrow> node" where
  "detach i (Node j e ks) = Node j e (map (detach i) (filter (\<lambda>k. nid k \<noteq> i) ks))"

text \<open>
  \<^verbatim>\<open>el.remove()\<close>: nothing happens to a node without a parent (the root of a tree that
  is already out of the document); otherwise the subtree leaves its parent, or the
  document when it is the root element, and stays reachable through the reference.
\<close>

definition removeNode :: "nat \<Rightarrow> dom \<Rightarrow> dom" where
  "removeNode i d =
     (case lookupNode i d of
        None \<Rightarrow> d
      | Some n \<Rightarrow>
          if i \<in> set (map nid (detached d)) then d
          else \<lparr>document = map (detach i) (filter (\<lambda>k. nid k \<noteq> i) (document d)),
                detached = map (detach i) (detached d) @ [n]\<rparr>)"

text \<open>
  \<^verbatim>\<open>parent.appendChild(new)\<close> and \<^verbatim>\<open>parent.insertBefore(new, ref)\<close> for a node
  \<open>new\<close> that has just been created, so it has no old parent to leave.
  \<^verbatim>\<open>insertBefore\<close> throws a \<^verbatim>\<open>NotFoundError\<close> when \<open>ref\<close> is not a child of
  \<open>parent\<close>.
\<close>

datatype js_error = TypeError | NotFoundError

fun appendChildIn :: "nat \<Rightarrow> node \<Rightarrow> node \<Rightarrow> node" where
  "appendChildIn p new (Node j e ks) =
     (if j = p then Node j e (ks @ [new])
      else Node j e (map (appendChildIn p new) ks))"

definition appendChild :: "nat \<Rightarrow> node \<Rightarrow> dom \<Rightarrow> dom" where
  "appendChild p new d =
     \<lparr>document = map (appendChildIn p new) (document d),
      detached = map (appendChildIn p new) (detached d)\<rparr>"

fun insertBeforeIn :: "nat \<Rightarrow> node \<Rightarrow> nat \<Rightarrow> node \<Rightarrow> node" where
  "insertBeforeIn p new r (Node j e ks) =
     (if j = p
      then Node j e (takeWhile (\<lambda>k. nid k \<noteq> r) ks @ new # dropWhile (\<lambda>k. nid k \<noteq> r) ks)
      else Node j e (map (insertBeforeIn p new r) ks))"

definition insertBefore :: "nat \<Rightarrow> node \<Rightarrow> nat \<Rightarrow> dom \<Rightarrow> js_error + dom" where
  "insertBefore p new r d =
     (case parentElement r d of
        None \<Rightarrow> Inl NotFoundError
      | Some q \<Rightarrow>
          if nid q = p
          then Inr \<lparr>document = map (insertBeforeIn p new r) (document d),
                    detached = map (insertBeforeIn p new r) (detached d)\<rparr>
          else Inl NotFoundError)"

text \<open>New nodes get identities above every identity in use.\<close>

definition freshId :: "dom \<Rightarrow> nat" where
  "freshId d = Suc (foldr max (map nid (allNodes d)) 0)"

text \<open>
  \<^verbatim>\<open>el.cloneNode(true)\<close>: a copy of the subtree; the copies are new nodes, numbered
  from \<open>s\<close> on in document order. Event listeners are not part of the model, and the
  copy has none in the browser either.
\<close>

fun cloneNode :: "nat \<Rightarrow> node \<Rightarrow> node" and cloneNodes :: "nat \<Rightarrow> node list \<Rightarrow> node list" where
  "cloneNode s (Node i e ks) = Node s e (cloneNodes (Suc s) ks)"
| "cloneNodes s [] = []"
| "cloneNodes s (k # ks) = cloneNode s k # cloneNodes (s + length (nodes k)) ks"

section \<open>Finding the room panel\<close>

text \<open>
  \<^verbatim>\<open>findInRoomSection()\<close> gives \<^verbatim>\<open>null\<close> or the pair of the header and the section;
  \<^verbatim>\<open>getCharElements(section)\<close> and \<^verbatim>\<open>getExitCharElements()\<close> give lists of
  references. \<open>getCharElements\<close> is only called with a section that was found, so its
  guard for a missing section has no branch here.
\<close>

definition findInRoomSection :: "dom \<Rightarrow> (nat option \<times> nat) option" where
  "findInRoomSection d =
     (case docQuerySelector [Sel [ByClass ''panelsection'', ByClass ''pageroom--chars'']] d of
        None \<Rightarrow> None
      | Some section \<Rightarrow>
          Some (map_option nid (elQuerySelector [Sel [ByTag ''h3'']] (nid section) d),
                nid section))"

definition getCharElements :: "nat \<Rightarrow> dom \<Rightarrow> nat list" where
  "getCharElements section d = map nid (elQuerySelectorAll [Sel [ByClass charClass]] section d)"

definition getExitCharElements :: "dom \<Rightarrow> nat list" where
  "getExitCharElements d = map nid (docQuerySelectorAll [Sel [ByClass exitCharClass]] d)"

section \<open>The injected nodes\<close>

text \<open>
  \<^verbatim>\<open>createToggle()\<close> builds the switch from new nodes \<open>i\<close>, \<open>i + 1\<close>, \<open>i + 2\<close>. The
  click handler is not part of the tree.
\<close>

definition createToggle :: "bool \<Rightarrow> nat \<Rightarrow> node" where
  "createToggle splitEnabled i =
     Node i ((createElement ''div'')
              \<lparr>classList := [toggleClass],
               title := ''Filter the list to separate asleep and highly idle characters (away/idle level 3)''\<rparr>)
       [Node (i + 1) ((createElement ''div'')
              \<lparr>classList := ''msf-toggle-switch'' # (if splitEnabled then [''active''] else [])\<rparr>) [],
        Node (i + 2) ((createElement ''span'')
              \<lparr>classList := [''msf-toggle-label''],
               textContent := ''Hide sleepers (split)''\<rparr>) []]"

text \<open>A number in a template literal: its decimal digits.\<close>

definition digitChar :: "nat \<Rightarrow> char" where
  "digitChar n = ''0123456789'' ! (n mod 10)"

function showNat :: "nat \<Rightarrow> string" where
  "showNat n = (if n < 10 then [digitChar n] else showNat (n div 10) @ [digitChar n])"
  by pat_completeness auto
termination
  by (relation "measure id") auto

declare showNat.simps [simp del]

text \<open>The arrow in the header is U+25BA, three bytes in UTF-8.\<close>

definition arrowText :: string where
  "arrowText = [CHR 0xE2, CHR 0x96, CHR 0xBA]"

text \<open>
  The clone loses \<^verbatim>\<open>msf-hidden-char\<close> on its root, and then on every descendant that
  \<^verbatim>\<open>clone.querySelectorAll('.msf-hidden-char')\<close> finds.
\<close>

definition stripHidden :: "node \<Rightarrow> node" where
  "stripHidden clone =
     (let c = Node (nid clone) (classListRemove hiddenClass (elem clone)) (childNodes clone)
      in fold (\<lambda>child. updateElem (classListRemove hiddenClass) (nid child))
              (querySelectorAll [Sel [ByClass hiddenClass]] [] c) c)"

fun cloneSleepers :: "nat \<Rightarrow> node list \<Rightarrow> node list" where
  "cloneSleepers s [] = []"
| "cloneSleepers s (el # els) =
     stripHidden (cloneNode s el) # cloneSleepers (s + length (nodes el)) els"

text \<open>
  \<^verbatim>\<open>createSleepersSection(sleeperElements)\<close>, from new nodes \<open>i\<close> on: the section
  \<open>i\<close>, its header \<open>i + 1\<close> with arrow, title and count, the list \<open>i + 5\<close>, and in the
  list the placeholder or the clones from \<open>i + 6\<close> on. The elements are passed as they
  are when the function is called. The callback given to \<^verbatim>\<open>requestAnimationFrame\<close>
  runs after the function has returned and is not part of it.
\<close>

definition createSleepersSection :: "bool \<Rightarrow> node list \<Rightarrow> nat \<Rightarrow> node" where
  "createSleepersSection sleepersOpen sleeperElements i =
     Node i ((createElement ''div'')
              \<lparr>ident := sleepersSectionId, classList := [''msf-sleepers-section'']\<rparr>)
       [Node (i + 1) ((createElement ''div'')\<lparr>classList := [''msf-sleepers-header'']\<rparr>)
          [Node (i + 2) ((createElement ''span'')
                 \<lparr>classList := ''msf-sleepers-arrow'' # (if sleepersOpen then [''open''] else []),
                  textContent := arrowText\<rparr>) [],
           Node (i + 3) ((createElement ''span'')\<lparr>textContent := ''Sleepers''\<rparr>) [],
           Node (i + 4) ((createElement ''span'')
                 \<lparr>classList := [''msf-sleepers-count''],
                  textContent := ''('' @ showNat (length sleeperElements) @ '')''\<rparr>) []],
        Node (i + 5) ((createElement ''div'')
              \<lparr>classList := ''msf-sleepers-list'' # (if sleepersOpen then [] else [''collapsed''])\<rparr>)
          (if length sleeperElements = 0
           then [Node (i + 6) ((createElement ''div'')
                   \<lparr>classList := [noSleepersClass],
                    textContent := ''No sleepers in room.''\<rparr>) []]
           else cloneSleepers (i + 6) sleeperElements)]"

section \<open>Exit thumbnails\<close>

text \<open>
  \<^verbatim>\<open>img.src.split('?')[0]\<close>: the URL up to its first question mark.
\<close>

definition baseUrl :: "string \<Rightarrow> string" where
  "baseUrl s = takeWhile (\<lambda>c. c \<noteq> CHR ''?'') s"

text \<open>
  The loop that builds \<^verbatim>\<open>sleeperAvatarUrls\<close>; the \<^verbatim>\<open>Set\<close> is a list without
  repetitions.
\<close>

fun collectAvatarUrls :: "nat list \<Rightarrow> dom \<Rightarrow> string list \<Rightarrow> string list" where
  "collectAvatarUrls [] d urls = urls"
| "collectAvatarUrls (el # els) d urls =
     (case elQuerySelector [Desc [ByClass ''avatar''] [ByTag ''img'']] el d of
        None \<Rightarrow> collectAvatarUrls els d urls
      | Some img \<Rightarrow>
          if src (elem img) \<noteq> []
          then collectAvatarUrls els d (List.insert (baseUrl (src (elem img))) urls)
          else collectAvatarUrls els d urls)"

fun hideExitChars :: "string list \<Rightarrow> nat list \<Rightarrow> dom \<Rightarrow> dom" where
  "hideExitChars urls [] d = d"
| "hideExitChars urls (exitChar # exitChars) d =
     (case elQuerySelector [Sel [ByTag ''img'']] exitChar d of
        None \<Rightarrow> hideExitChars urls exitChars d
      | Some img \<Rightarrow>
          if src (elem img) = [] then hideExitChars urls exitChars d
          else if baseUrl (src (elem img)) \<in> set urls
          then hideExitChars urls exitChars (updateAt (classListAdd hiddenClass) exitChar d)
          else hideExitChars urls exitChars d)"

definition resetExitChars :: "dom \<Rightarrow> dom" where
  "resetExitChars d =
     fold (\<lambda>el. updateAt (classListRemove hiddenClass) (nid el))
          (docQuerySelectorAll [Sel [ByClass exitCharClass, ByClass hiddenClass]] d) d"

definition filterExitChars :: "bool \<Rightarrow> nat list \<Rightarrow> dom \<Rightarrow> dom" where
  "filterExitChars splitEnabled sleeperElements d =
     (let d1 = resetExitChars d in
      if \<not> splitEnabled \<or> length sleeperElements = 0 then d1
      else
        let sleeperAvatarUrls = collectAvatarUrls sleeperElements d1 [] in
        if length sleeperAvatarUrls = 0 then d1
        else hideExitChars sleeperAvatarUrls (getExitCharElements d1) d1)"

section \<open>Main filter logic\<close>

text \<open>
  The steps of \<^verbatim>\<open>applyFilter()\<close>, in the order of the source. \<open>splitEnabled\<close> and
  \<open>sleepersOpen\<close> are the two globals of the script. An exception leaves the function
  with the tree as it is at that point: the result is \<open>Inl\<close> of the error and that tree,
  or \<open>Inr\<close> of the tree when the function returns.
\<close>

definition removeExistingSleepersSection :: "dom \<Rightarrow> dom" where
  "removeExistingSleepersSection d =
     (case getElementById sleepersSectionId d of
        None \<Rightarrow> d
      | Some existingSleepersSection \<Rightarrow> removeNode (nid existingSleepersSection) d)"

definition resetChars :: "nat list \<Rightarrow> dom \<Rightarrow> dom" where
  "resetChars charElements d =
     fold (\<lambda>el. updateAt (classListRemove hiddenClass) el) charElements d"

definition removeExistingPlaceholder :: "nat \<Rightarrow> dom \<Rightarrow> dom" where
  "removeExistingPlaceholder section d =
     (case elQuerySelector [Sel [ByClass noAwakeClass]] section d of
        None \<Rightarrow> d
      | Some existingPlaceholder \<Rightarrow> removeNode (nid existingPlaceholder) d)"

definition ensureToggle :: "bool \<Rightarrow> bool \<Rightarrow> nat \<Rightarrow> dom \<Rightarrow> js_error + dom" where
  "ensureToggle splitEnabled existingToggle section d =
     (if \<not> existingToggle then
        (case (elQuerySelector [Sel [ByClass ''panelsection--title'']] section d,
               elQuerySelector [Sel [ByClass ''pageroom--inroomheader'']] section d) of
           (Some titleEl, Some inroomHeader) \<Rightarrow>
             insertBefore (nid titleEl) (createToggle splitEnabled (freshId d)) (nid inroomHeader) d
         | _ \<Rightarrow> Inr d)
      else Inr d)"

text \<open>
  The loop that sorts the characters: a sleeper is pushed to \<open>sleepers\<close> and gets
  \<^verbatim>\<open>msf-hidden-char\<close>, anyone else is pushed to \<open>awake\<close>. Every reference in
  \<open>charElements\<close> came from a query and nodes never leave the state, so the lookup
  finds it; the branch for a missing node is there to make the function total.
\<close>

fun classifyChars :: "nat list \<Rightarrow> nat list \<Rightarrow> nat list \<Rightarrow> dom \<Rightarrow> nat list \<times> nat list \<times> dom" where
  "classifyChars [] sleepers awake d = (sleepers, awake, d)"
| "classifyChars (el # els) sleepers awake d =
     (case lookupNode el d of
        None \<Rightarrow> classifyChars els sleepers (awake @ [el]) d
      | Some n \<Rightarrow>
          if isSleeperChar n
          then classifyChars els (sleepers @ [el]) awake (updateAt (classListAdd hiddenClass) el d)
          else classifyChars els sleepers (awake @ [el]) d)"

definition noAwakePlaceholder :: "nat \<Rightarrow> node" where
  "noAwakePlaceholder i =
     Node i ((createElement ''div'')
              \<lparr>classList := [noAwakeClass], textContent := ''No one awake in room.''\<rparr>) []"

definition addNoAwakePlaceholder :: "nat list \<Rightarrow> nat list \<Rightarrow> dom \<Rightarrow> dom" where
  "addNoAwakePlaceholder awake charElements d =
     (if length awake = 0 \<and> length charElements > 0 then
        (case parentElement (hd charElements) d of
           None \<Rightarrow> d
         | Some charContainer \<Rightarrow> appendChild (nid charContainer) (noAwakePlaceholder (freshId d)) d)
      else d)"

text \<open>The elements behind a list of references, as they are now.\<close>

definition deref :: "nat list \<Rightarrow> dom \<Rightarrow> node list" where
  "deref els d = concat (map (\<lambda>el. case lookupNode el d of None \<Rightarrow> [] | Some n \<Rightarrow> [n]) els)"

text \<open>
  The new section goes right after the \<open>In room\<close> section. \<^verbatim>\<open>section.parentElement\<close>
  is \<^verbatim>\<open>null\<close> for a section without a parent element, and the call on it throws a
  \<^verbatim>\<open>TypeError\<close> in either branch.
\<close>

definition insertSleepersSection :: "nat \<Rightarrow> node \<Rightarrow> dom \<Rightarrow> js_error + dom" where
  "insertSleepersSection section sleepersSection d =
     (case nextSibling section d of
        Some next \<Rightarrow>
          (case parentElement section d of
             None \<Rightarrow> Inl TypeError
           | Some parent \<Rightarrow> insertBefore (nid parent) sleepersSection next d)
      | None \<Rightarrow>
          (case parentElement section d of
             None \<Rightarrow> Inl TypeError
           | Some parent \<Rightarrow> Inr (appendChild (nid parent) sleepersSection d)))"

definition applyFilter :: "bool \<Rightarrow> bool \<Rightarrow> dom \<Rightarrow> (js_error \<times> dom) + dom" where
  "applyFilter splitEnabled sleepersOpen d0 =
     (case findInRoomSection d0 of
        None \<Rightarrow> Inr d0
      | Some (header, section) \<Rightarrow>
          let d1 = removeExistingSleepersSection d0;
              existingToggle = (elQuerySelector [Sel [ByClass toggleClass]] section d1 \<noteq> None);
              charElements = getCharElements section d1;
              d2 = resetChars charElements d1;
              d3 = removeExistingPlaceholder section d2
          in case ensureToggle splitEnabled existingToggle section d3 of
               Inl err \<Rightarrow> Inl (err, d3)
             | Inr d4 \<Rightarrow>
                 if \<not> splitEnabled then Inr (resetExitChars d4)
                 else
                   (case classifyChars charElements [] [] d4 of
                      (sleepers, awake, d5) \<Rightarrow>
                        let d6 = addNoAwakePlaceholder awake charElements d5;
                            sleepersSection =
                              createSleepersSection sleepersOpen (deref sleepers d6) (freshId d6)
                        in case insertSleepersSection section sleepersSection d6 of
                             Inl err \<Rightarrow> Inl (err, d6)
                           | Inr d7 \<Rightarrow> Inr (filterExitChars splitEnabled sleepers d7)))"

section \<open>Observation\<close>

text \<open>
  A \<^verbatim>\<open>MutationRecord\<close> as the callback reads it: the target (or \<^verbatim>\<open>null\<close>) with its
  ancestors, nearest first, whether the target is an SVG element, and how many nodes
  were added and removed.
\<close>

record mutationRecord =
  target :: "element option"
  targetAncestors :: "element list"
  targetIsSVG :: bool
  addedNodes :: nat
  removedNodes :: nat

text \<open>\<^verbatim>\<open>target.closest(sel)\<close>: the target itself or its nearest ancestor that matches.\<close>

definition closest :: "simple list \<Rightarrow> element \<Rightarrow> element list \<Rightarrow> element option" where
  "closest c e ancs = find (matchesCompound c) (e # ancs)"

text \<open>
  \<^verbatim>\<open>className\<close> of an HTML element is the tokens with blanks between them;
  \<^verbatim>\<open>includes\<close> looks for a substring. On an SVG element \<^verbatim>\<open>className\<close> is an
  \<^verbatim>\<open>SVGAnimatedString\<close> object, and its \<^verbatim>\<open>toString()\<close> is the fixed text
  \<^verbatim>\<open>[object SVGAnimatedString]\<close>, whatever the classes are.
\<close>

fun className :: "string list \<Rightarrow> string" where
  "className [] = []"
| "className [c] = c"
| "className (c # cs) = c @ '' '' @ className cs"

fun str_includes :: "string \<Rightarrow> string \<Rightarrow> bool" where
  "str_includes [] sub = (sub = [])"
| "str_includes (c # cs) sub = (take (length sub) (c # cs) = sub \<or> str_includes cs sub)"

definition skipsMutation :: "element \<Rightarrow> element list \<Rightarrow> bool" where
  "skipsMutation t ancs =
     (closest [ById sleepersSectionId] t ancs \<noteq> None \<or>
      closest [ByClass toggleClass] t ancs \<noteq> None \<or>
      hiddenClass \<in> set (classList t) \<or>
      ''msf-sleepers-list'' \<in> set (classList t) \<or>
      ''msf-sleepers-arrow'' \<in> set (classList t))"

definition classNameString :: "element \<Rightarrow> mutationRecord \<Rightarrow> string" where
  "classNameString t mutation =
     (if targetIsSVG mutation then ''[object SVGAnimatedString]'' else className (classList t))"

definition reactsTo :: "element \<Rightarrow> mutationRecord \<Rightarrow> bool" where
  "reactsTo t mutation =
     (let cls = classNameString t mutation in
      str_includes cls ''pageroom'' \<or>
      str_includes cls ''panelsection'' \<or>
      str_includes cls ''common--level'' \<or>
      str_includes cls ''fader'' \<or>
      str_includes cls ''badge'' \<or>
      addedNodes mutation > 0 \<or>
      removedNodes mutation > 0)"

text \<open>The loop over the batch, with its \<^verbatim>\<open>continue\<close> and \<^verbatim>\<open>break\<close>.\<close>

fun shouldReapply :: "mutationRecord list \<Rightarrow> bool" where
  "shouldReapply [] = False"
| "shouldReapply (mutation # mutations) =
     (case target mutation of
        None \<Rightarrow> shouldReapply mutations
      | Some t \<Rightarrow>
          if skipsMutation t (targetAncestors mutation) then shouldReapply mutations
          else if reactsTo t mutation then True
          else shouldReapply mutations)"

text \<open>
  The callback of the observer on the pending timer: \<open>None\<close> when no call of
  \<^verbatim>\<open>applyFilter\<close> is scheduled, \<open>Some ms\<close> when one is due after \<open>ms\<close> milliseconds.
  Scheduling clears the old timer and sets a new one of 200 ms.
\<close>

definition observerCallback :: "mutationRecord list \<Rightarrow> nat option \<Rightarrow> nat option" where
  "observerCallback mutations timeout =
     (if shouldReapply mutations then Some 200 else timeout)"

section \<open>The copy of version 1.0.0\<close>

text \<open>
  The file holds two copies of the script, version 1.1.1 first and version 1.0.0 after
  it. The functions above are those of 1.1.1. Two functions of 1.0.0 that differ
  from them are written out here, with what they call; \<open>isSleeperChar\<close> is the same in
  both copies.

  \<^verbatim>\<open>getExitCharElements()\<close> of 1.0.0 asks for
  \<^verbatim>\<open>[class*="pageroomexitchar"], [class*="exitchar"], [class*="exit-char"]\<close>: every
  element of the document, in document order, whose \<^verbatim>\<open>class\<close> attribute has one of
  the three texts in it.
\<close>

definition classAttrContains :: "string \<Rightarrow> element \<Rightarrow> bool" where
  "classAttrContains s e = str_includes (className (classList e)) s"

definition getExitCharElements_v100 :: "dom \<Rightarrow> nat list" where
  "getExitCharElements_v100 d =
     map nid (filter (\<lambda>x. classAttrContains ''pageroomexitchar'' (elem x) \<or>
                          classAttrContains ''exitchar'' (elem x) \<or>
                          classAttrContains ''exit-char'' (elem x))
                (nodesL (document d)))"

text \<open>
  \<^verbatim>\<open>filterExitChars()\<close> of 1.0.0 has no parameter. With splitting off it takes
  \<^verbatim>\<open>msf-hidden-char\<close> off every element of the document that carries it; with
  splitting on it calls \<^verbatim>\<open>isSleeperChar\<close> on each exit thumbnail and hides those for
  which it holds. It does not reset anything in that case and reads no image.
\<close>

fun hideExitSleepers_v100 :: "nat list \<Rightarrow> dom \<Rightarrow> dom" where
  "hideExitSleepers_v100 [] d = d"
| "hideExitSleepers_v100 (el # els) d =
     (case lookupNode el d of
        None \<Rightarrow> hideExitSleepers_v100 els d
      | Some n \<Rightarrow>
          if isSleeperChar n
          then hideExitSleepers_v100 els (updateAt (classListAdd hiddenClass) el d)
          else hideExitSleepers_v100 els d)"

definition filterExitChars_v100 :: "bool \<Rightarrow> dom \<Rightarrow> dom" where
  "filterExitChars_v100 splitEnabled d =
     (if \<not> splitEnabled
      then fold (\<lambda>el. updateAt (classListRemove hiddenClass) el)
             (map nid (docQuerySelectorAll [Sel [ByClass hiddenClass]] d)) d
      else hideExitSleepers_v100 (getExitCharElements_v100 d) d)"

text \<open>
  \<^verbatim>\<open>createSleepersSection(sleeperElements)\<close> of 1.0.0 builds the same section, but a
  clone loses \<^verbatim>\<open>msf-hidden-char\<close> on its root only.
\<close>

fun cloneSleepers_v100 :: "nat \<Rightarrow> node list \<Rightarrow> node list" where
  "cloneSleepers_v100 s [] = []"
| "cloneSleepers_v100 s (el # els) =
     (let clone = cloneNode s el
      in Node (nid clone) (classListRemove hiddenClass (elem clone)) (childNodes clone))
     # cloneSleepers_v100 (s + length (nodes el)) els"

definition createSleepersSection_v100 :: "bool \<Rightarrow> node list \<Rightarrow> nat \<Rightarrow> node" where
  "createSleepersSection_v100 sleepersOpen sleeperElements i =
     Node i ((createElement ''div'')
              \<lparr>ident := sleepersSectionId, classList := [''msf-sleepers-section'']\<rparr>)
       [Node (i + 1) ((createElement ''div'')\<lparr>classList := [''msf-sleepers-header'']\<rparr>)
          [Node (i + 2) ((createElement ''span'')
                 \<lparr>classList := ''msf-sleepers-arrow'' # (if sleepersOpen then [''open''] else []),
                  textContent := arrowText\<rparr>) [],
           Node (i + 3) ((createElement ''span'')\<lparr>textContent := ''Sleepers''\<rparr>) [],
           Node (i + 4) ((createElement ''span'')
                 \<lparr>classList := [''msf-sleepers-count''],
                  textContent := ''('' @ showNat (length sleeperElements) @ '')''\<rparr>) []],
        Node (i + 5) ((createElement ''div'')
              \<lparr>classList := ''msf-sleepers-list'' # (if sleepersOpen then [] else [''collapsed''])\<rparr>)
          (if length sleeperElements = 0
           then [Node (i + 6) ((createElement ''div'')
                   \<lparr>classList := [noSleepersClass],
                    textContent := ''No sleepers in room.''\<rparr>) []]
           else cloneSleepers_v100 (i + 6) sleeperElements)]"

section \<open>Notions used in the statements\<close>

text \<open>
  A page at the start of a call of \<^verbatim>\<open>applyFilter\<close>: the document, and no tree out of
  the document is held by anyone.
\<close>

definition page :: "node list \<Rightarrow> dom" where
  "page doc = \<lparr>document = doc, detached = []\<rparr>"

text \<open>
  \<open>mapElems g\<close> changes the element of every node of a tree, \<open>eraseIds\<close> forgets the
  identities (two trees look the same when they agree after it), and \<open>withoutHidden\<close>
  is the tree with \<^verbatim>\<open>msf-hidden-char\<close> taken off every node.
\<close>

fun mapElems :: "(nat \<Rightarrow> element \<Rightarrow> element) \<Rightarrow> node \<Rightarrow> node" where
  "mapElems g (Node j e ks) = Node j (g j e) (map (mapElems g) ks)"


definition withoutHidden :: "node \<Rightarrow> node" where
  "withoutHidden n = mapElems (\<lambda>j. classListRemove hiddenClass) n"




section \<open>Sample pages\<close>

text \<open>
  A character row as the client renders it, cut down to the wrapper, the avatar image
  and the name element that carries the level class; the thumbnail of a character in an
  exit; and a room panel with its exits section and its \<open>In room\<close> section.
\<close>

definition sampleChar :: "nat \<Rightarrow> string \<Rightarrow> string \<Rightarrow> node" where
  "sampleChar i url level =
     Node i ((createElement ''div'')\<lparr>classList := [charClass]\<rparr>)
       [Node (i + 1) ((createElement ''div'')\<lparr>classList := [''avatar'']\<rparr>)
          [Node (i + 2) ((createElement ''img'')\<lparr>src := url\<rparr>) []],
        Node (i + 3) ((createElement ''div'')
               \<lparr>classList := [''pageroom-char--name'', level]\<rparr>) []]"

definition sampleExit :: "nat \<Rightarrow> string \<Rightarrow> node" where
  "sampleExit i url =
     Node i ((createElement ''div'')\<lparr>classList := [exitCharClass]\<rparr>)
       [Node (i + 1) ((createElement ''img'')\<lparr>src := url\<rparr>) []]"

definition sampleRoom :: "node list \<Rightarrow> node list \<Rightarrow> node list" where
  "sampleRoom exits chars =
     [Node 1 ((createElement ''div'')\<lparr>classList := [''pageroom--sections'']\<rparr>)
        [Node 2 ((createElement ''div'')
                \<lparr>classList := [''panelsection'', ''pageroom--exits'']\<rparr>) exits,
         Node 3 ((createElement ''div'')
                \<lparr>classList := [''panelsection'', ''pageroom--chars'']\<rparr>)
           [Node 4 ((createElement ''div'')\<lparr>classList := [''panelsection--title'']\<rparr>)
              [Node 5 ((createElement ''div'')\<lparr>classList := [''pageroom--inroomheader'']\<rparr>)
                 [Node 6 ((createElement ''h3'')\<lparr>textContent := ''In room''\<rparr>) []]],
            Node 7 ((createElement ''div'')\<lparr>classList := [''panelsection--content'']\<rparr>)
              chars]]]"


text \<open>
  A mutation record for a node added inside the \<open>No one awake\<close> placeholder, which sits
  in the host's list of characters.
\<close>

definition placeholderMutation :: mutationRecord where
  "placeholderMutation =
     \<lparr>target = Some (elem (noAwakePlaceholder 0)),
      targetAncestors = [(createElement ''div'')\<lparr>classList := [''panelsection--content'']\<rparr>,
                         (createElement ''div'')
                           \<lparr>classList := [''panelsection'', ''pageroom--chars'']\<rparr>],
      targetIsSVG = False,
      addedNodes = 1,
      removedNodes = 0\<rparr>"

section \<open>Changes that touch one class only\<close>

definition mapDom :: "(nat \<Rightarrow> element \<Rightarrow> element) \<Rightarrow> dom \<Rightarrow> dom" where
  "mapDom g d =
     \<lparr>document = map (mapElems g) (document d), detached = map (mapElems g) (detached d)\<rparr>"

definition sameBut :: "string \<Rightarrow> element \<Rightarrow> element \<Rightarrow> bool" where
  "sameBut c a b = (classListRemove c a = classListRemove c b)"

definition touchesOnly :: "string \<Rightarrow> (nat \<Rightarrow> element \<Rightarrow> element) \<Rightarrow> bool" where
  "touchesOnly c g = (\<forall>j e. sameBut c e (g j e))"

fun avoidsSimple :: "string \<Rightarrow> simple \<Rightarrow> bool" where
  "avoidsSimple c (ByClass c') = (c \<noteq> c')"
| "avoidsSimple c _ = True"

fun avoidsSel :: "string \<Rightarrow> selector \<Rightarrow> bool" where
  "avoidsSel c (Sel s) = list_all (avoidsSimple c) s"
| "avoidsSel c (Desc a s) = (list_all (avoidsSimple c) a \<and> list_all (avoidsSimple c) s)"

definition avoids :: "string \<Rightarrow> selector list \<Rightarrow> bool" where
  "avoids c ss = list_all (avoidsSel c) ss"

section \<open>Avatar signatures\<close>

definition signatureOf :: "node option \<Rightarrow> string option" where
  "signatureOf img =
     (case img of
        None \<Rightarrow> None
      | Some i \<Rightarrow> if src (elem i) = [] then None else Some (baseUrl (src (elem i))))"

definition avatarSignature :: "nat \<Rightarrow> dom \<Rightarrow> string option" where
  "avatarSignature el d =
     signatureOf (elQuerySelector [Desc [ByClass ''avatar''] [ByTag ''img'']] el d)"

definition exitSignature :: "node \<Rightarrow> string option" where
  "exitSignature x = signatureOf (querySelector [Sel [ByTag ''img'']] [] x)"

definition sleeperSignatures :: "nat list \<Rightarrow> dom \<Rightarrow> string set" where
  "sleeperSignatures sleepers d = set (List.map_filter (\<lambda>el. avatarSignature el d) sleepers)"

definition exitEntries :: "dom \<Rightarrow> node list" where
  "exitEntries d = docQuerySelectorAll [Sel [ByClass exitCharClass]] d"

definition isHidden :: "node \<Rightarrow> bool" where
  "isHidden x = (hiddenClass \<in> set (classList (elem x)))"

definition exitMatch :: "string list \<Rightarrow> nat \<Rightarrow> dom \<Rightarrow> bool" where
  "exitMatch urls j d =
     (case signatureOf (elQuerySelector [Sel [ByTag ''img'']] j d) of
        None \<Rightarrow> False | Some s \<Rightarrow> s \<in> set urls)"

text \<open>What \<open>filterExitChars\<close> does to the element of node \<open>j\<close>.\<close>

definition exitFilterChange :: "bool \<Rightarrow> nat list \<Rightarrow> dom \<Rightarrow> nat \<Rightarrow> element \<Rightarrow> element" where
  "exitFilterChange se sleepers d j e =
      (let e' = (if j \<in> nid ` set (docQuerySelectorAll
                        [Sel [ByClass exitCharClass, ByClass hiddenClass]] d)
                 then classListRemove hiddenClass e else e)
       in if se \<and> j \<in> nid ` set (exitEntries d) \<and>
             exitMatch (collectAvatarUrls sleepers d []) j d
          then classListAdd hiddenClass e' else e')"

text \<open>
  A page with three exit thumbnails: one hidden by an earlier pass, one with the avatar
  of the sleeper in the room, one that carries a level class of its own.
\<close>

definition sampleExitPage :: dom where
  "sampleExitPage =
     page (sampleRoom
       [Node 10 ((createElement ''div'')\<lparr>classList := [exitCharClass, hiddenClass]\<rparr>)
          [Node 11 ((createElement ''img'')\<lparr>src := ''c.png?thumb=s''\<rparr>) []],
        sampleExit 12 ''a.png?thumb=s'',
        Node 14 ((createElement ''div'')\<lparr>classList := [exitCharClass, asleepClass]\<rparr>)
          [Node 15 ((createElement ''img'')\<lparr>src := ''b.png?thumb=s''\<rparr>) []]]
       [sampleChar 20 ''a.png?thumb=m'' asleepClass,
        sampleChar 24 ''b.png?thumb=m'' ''common--level-active''])"

section \<open>Insertions and removals as changes of child lists\<close>

text \<open>A change of the child list of the node \<open>p\<close>.\<close>

fun editChildren :: "nat \<Rightarrow> (node list \<Rightarrow> node list) \<Rightarrow> node \<Rightarrow> node" where
  "editChildren p F (Node j e ks) =
     (if j = p then Node j e (F ks) else Node j e (map (editChildren p F) ks))"

definition splices :: "node \<Rightarrow> (node list \<Rightarrow> node list) \<Rightarrow> bool" where
  "splices new F = (\<forall>ks. \<exists>m. F ks = take m ks @ new # drop m ks)"

definition nids :: "node list \<Rightarrow> nat list" where
  "nids ns = map nid (nodesL ns)"

definition flat :: "node list \<Rightarrow> (nat \<times> element) list" where
  "flat ns = map (\<lambda>x. (nid x, elem x)) (nodesL ns)"

definition detachL :: "nat \<Rightarrow> node list \<Rightarrow> node list" where
  "detachL i ns = map (detach i) (filter (\<lambda>k. nid k \<noteq> i) ns)"

definition subtreeIn :: "nat \<Rightarrow> node list \<Rightarrow> node option" where
  "subtreeIn i ns = find (\<lambda>n. nid n = i) (nodesL ns)"

definition editDom :: "nat \<Rightarrow> (node list \<Rightarrow> node list) \<Rightarrow> dom \<Rightarrow> dom" where
  "editDom p F d = \<lparr>document = map (editChildren p F) (document d),
                    detached = map (editChildren p F) (detached d)\<rparr>"

definition tr :: "(element \<Rightarrow> bool) \<Rightarrow> node list \<Rightarrow> nat list" where
  "tr Q ns = map fst (filter (\<lambda>x. Q (snd x)) (flat ns))"

section \<open>Edges and traces of a section\<close>

definition edgesL :: "node list \<Rightarrow> (nat \<times> nat) list" where
  "edgesL ns = concat (map (\<lambda>q. map (\<lambda>k. (nid k, nid q)) (childNodes q)) (nodesL ns))"

definition secTr :: "(element \<Rightarrow> bool) \<Rightarrow> nat \<Rightarrow> dom \<Rightarrow> nat list" where
  "secTr Q s d = (case lookupNode s d of None \<Rightarrow> [] | Some n \<Rightarrow> tr Q (childNodes n))"

definition nodeTr :: "(element \<Rightarrow> bool) \<Rightarrow> nat \<Rightarrow> dom \<Rightarrow> nat list" where
  "nodeTr Q s d = (case lookupNode s d of None \<Rightarrow> [] | Some n \<Rightarrow> tr Q [n])"

section \<open>Sleepers of a section\<close>

definition levelMarked :: "element \<Rightarrow> bool" where
  "levelMarked e = (asleepClass \<in> set (classList e) \<or> inactiveClass \<in> set (classList e))"

definition hasClass :: "string \<Rightarrow> element \<Rightarrow> bool" where
  "hasClass c e = (c \<in> set (classList e))"

definition sleeperAt :: "dom \<Rightarrow> nat \<Rightarrow> bool" where
  "sleeperAt d c = (case lookupNode c d of None \<Rightarrow> False | Some n \<Rightarrow> isSleeperChar n)"

definition charEntries :: "nat \<Rightarrow> dom \<Rightarrow> node list" where
  "charEntries section d = elQuerySelectorAll [Sel [ByClass charClass]] section d"

definition placeholders :: "nat \<Rightarrow> dom \<Rightarrow> node list" where
  "placeholders section d = elQuerySelectorAll [Sel [ByClass noAwakeClass]] section d"

definition asInjectedPlaceholder :: "node \<Rightarrow> bool" where
  "asInjectedPlaceholder p = (classList (elem p) = [noAwakeClass] \<and> childNodes p = [])"

section \<open>The characters of a list and their state\<close>

definition charStatus :: "node list \<Rightarrow> (nat \<times> bool) list" where
  "charStatus ks = map (\<lambda>y. (nid y, isSleeperChar y))
                     (filter (\<lambda>y. hasClass charClass (elem y)) (nodesL ks))"

section \<open>The section through the steps of a pass\<close>

definition sect :: "nat \<Rightarrow> dom \<Rightarrow> node \<Rightarrow> bool" where
  "sect s d x = (wf_dom d \<and> lookupNode s d = Some x)"

section \<open>Placeholders that hold nothing\<close>

definition inertPlaceholders :: "node list \<Rightarrow> bool" where
  "inertPlaceholders ks =
     (\<forall>y \<in> set (nodesL ks). hasClass noAwakeClass (elem y) \<longrightarrow>
        tr (hasClass charClass) [y] = [] \<and> tr levelMarked [y] = [])"

section \<open>Facts about queries\<close>

definition isSel :: "selector \<Rightarrow> bool" where
  "isSel s = (case s of Sel _ \<Rightarrow> True | Desc _ _ \<Rightarrow> False)"

lemma matchesAny_Sel_ancs:
  "list_all isSel ss \<Longrightarrow> matchesAny ss ancs e = matchesAny ss ancs' e"
  by (induction ss) (auto simp: matchesAny_def isSel_def split: selector.splits)

lemma selectFrom_Sel_ancs:
  "list_all isSel ss \<Longrightarrow> selectFrom ss ancs n = selectFrom ss ancs' n"
proof (induction n arbitrary: ancs ancs')
  case (Node i e ks)
  have a: "map (selectFrom ss (e # ancs)) ks = map (selectFrom ss (e # ancs')) ks"
    by (rule map_cong[OF refl]) (rule Node.IH[OF _ Node.prems])
  have b: "matchesAny ss ancs e = matchesAny ss ancs' e"
    using Node.prems by (rule matchesAny_Sel_ancs)
  show ?case by (simp only: selectFrom.simps a b)
qed

lemma selectFrom_Sel_filter:
  "list_all isSel ss \<Longrightarrow>
   selectFrom ss ancs n = filter (\<lambda>x. matchesAny ss [] (elem x)) (nodes n)"
proof (induction n arbitrary: ancs)
  case (Node i e ks)
  have a: "map (selectFrom ss (e # ancs)) ks =
        map (\<lambda>k. filter (\<lambda>x. matchesAny ss [] (elem x)) (nodes k)) ks"
    by (rule map_cong[OF refl]) (rule Node.IH[OF _ Node.prems])
  have b: "matchesAny ss ancs e = matchesAny ss [] e"
    using Node.prems by (rule matchesAny_Sel_ancs)
  show ?case
    by (simp only: selectFrom.simps a b) (simp add: filter_concat comp_def)
qed

lemma querySelectorAll_Sel_filter:
  "list_all isSel ss \<Longrightarrow>
   querySelectorAll ss ancs n =
   filter (\<lambda>x. matchesAny ss [] (elem x)) (nodesL (childNodes n))"
proof -
  assume s: "list_all isSel ss"
  have "map (selectFrom ss (elem n # ancs)) (childNodes n) =
        map (\<lambda>k. filter (\<lambda>x. matchesAny ss [] (elem x)) (nodes k)) (childNodes n)"
    by (rule map_cong[OF refl]) (rule selectFrom_Sel_filter[OF s])
  then show ?thesis
    unfolding querySelectorAll_def nodesL_def
    by (simp only:) (simp add: filter_concat comp_def)
qed

lemma nodes_eq_self_desc: "nodes n = n # nodesL (childNodes n)"
  by (cases n) (simp add: nodesL_def)

section \<open>Facts about the clones and the count label\<close>

lemma updateElem_mapElems: "updateElem f i n = mapElems (\<lambda>j e. if j = i then f e else e) n"
  by (induction n) simp

lemma mapElems_comp: "mapElems g (mapElems g' n) = mapElems (\<lambda>j e. g j (g' j e)) n"
  by (induction n) simp

lemma mapElems_cong:
  "(\<And>x. x \<in> set (nodes n) \<Longrightarrow> g (nid x) (elem x) = g' (nid x) (elem x)) \<Longrightarrow>
   mapElems g n = mapElems g' n"
proof (induction n)
  case (Node j e ks)
  have "g j e = g' j e" using Node.prems[of "Node j e ks"] by simp
  moreover have "map (mapElems g) ks = map (mapElems g') ks"
  proof (rule map_cong[OF refl])
    fix k assume k: "k \<in> set ks"
    show "mapElems g k = mapElems g' k"
    proof (rule Node.IH[OF k])
      fix x assume "x \<in> set (nodes k)"
      then have "x \<in> set (nodes (Node j e ks))" using k by auto
      then show "g (nid x) (elem x) = g' (nid x) (elem x)" by (rule Node.prems)
    qed
  qed
  ultimately show ?case by simp
qed

lemma fold_updateElem:
  assumes idem: "\<And>e. f (f e) = f e"
  shows "fold (\<lambda>i. updateElem f i) is n = mapElems (\<lambda>j e. if j \<in> set is then f e else e) n"
proof (induction "is" arbitrary: n)
  case Nil
  show ?case by (induction n) (simp add: map_idI)
next
  case (Cons i "is")
  have "fold (\<lambda>i. updateElem f i) (i # is) n = fold (\<lambda>i. updateElem f i) is (updateElem f i n)"
    by simp
  also have "\<dots> = mapElems (\<lambda>j e. if j \<in> set is then f e else e) (updateElem f i n)"
    by (rule Cons.IH)
  also have "\<dots> = mapElems (\<lambda>j e. if j \<in> set (i # is) then f e else e) n"
    unfolding updateElem_mapElems mapElems_comp
    by (rule mapElems_cong) (auto simp: idem)
  finally show ?case .
qed

lemma classListRemove_idem: "classListRemove c (classListRemove c e) = classListRemove c e"
  by (simp add: classListRemove_def)

lemma classListRemove_absent: "c \<notin> set (classList e) \<Longrightarrow> classListRemove c e = e"
  by (simp add: classListRemove_def)

lemma nodes_mapElems: "nodes (mapElems g n) = map (mapElems g) (nodes n)"
  by (induction n) (simp add: map_concat comp_def cong: map_cong)

lemma elem_mapElems: "elem (mapElems g n) = g (nid n) (elem n)"
  by (cases n) simp
lemma nid_mapElems: "nid (mapElems g n) = nid n"
  by (cases n) simp

lemma stripHidden_eq: "stripHidden c = withoutHidden c"
proof -
  let ?f = "classListRemove hiddenClass"
  let ?c = "Node (nid c) (?f (elem c)) (childNodes c)"
  let ?is = "map nid (querySelectorAll [Sel [ByClass hiddenClass]] [] ?c)"
  have sel: "list_all isSel [Sel [ByClass hiddenClass]]" by (simp add: isSel_def)
  have "stripHidden c = fold (\<lambda>i. updateElem ?f i) ?is ?c"
    by (simp add: stripHidden_def fold_map comp_def Let_def)
  also have "\<dots> = mapElems (\<lambda>j e. if j \<in> set ?is then ?f e else e) ?c"
    by (rule fold_updateElem) (rule classListRemove_idem)
  also have "\<dots> = mapElems (\<lambda>j. ?f) ?c"
  proof (rule mapElems_cong)
    fix x assume x: "x \<in> set (nodes ?c)"
    show "(if nid x \<in> set ?is then ?f (elem x) else elem x) = ?f (elem x)"
    proof (cases "hiddenClass \<in> set (classList (elem x))")
      case False then show ?thesis by (simp add: classListRemove_absent)
    next
      case True
      then have "x \<noteq> ?c" by (auto simp: classListRemove_def)
      with x have "x \<in> set (nodesL (childNodes ?c))" by (simp add: nodesL_def)
      with True have "x \<in> set (querySelectorAll [Sel [ByClass hiddenClass]] [] ?c)"
        by (simp add: querySelectorAll_Sel_filter[OF sel] matchesAny_def matchesCompound_def)
      then show ?thesis by simp
    qed
  qed
  also have "\<dots> = withoutHidden c"
    by (cases c) (simp add: withoutHidden_def classListRemove_idem)
  finally show ?thesis .
qed











section \<open>Queries under a change of classes\<close>

lemma mapElems_id: "mapElems (\<lambda>j e. e) n = n"
  by (induction n) (simp add: map_idI)

lemma updateAt_mapDom: "updateAt f i d = mapDom (\<lambda>j e. if j = i then f e else e) d"
  by (simp add: updateAt_def mapDom_def updateElem_mapElems[abs_def])

lemma mapDom_comp: "mapDom g (mapDom g' d) = mapDom (\<lambda>j e. g j (g' j e)) d"
  by (simp add: mapDom_def mapElems_comp comp_def)

lemma mapDom_id: "mapDom (\<lambda>j e. e) d = d"
  by (simp add: mapDom_def mapElems_id[abs_def] comp_def)

lemma nodesL_mapElems: "nodesL (map (mapElems g) ns) = map (mapElems g) (nodesL ns)"
  by (simp add: nodesL_def map_concat comp_def nodes_mapElems)

lemma allNodes_mapDom: "allNodes (mapDom g d) = map (mapElems g) (allNodes d)"
  by (simp add: allNodes_def mapDom_def nodesL_mapElems)

lemma nids_mapDom: "map nid (allNodes (mapDom g d)) = map nid (allNodes d)"
  by (simp add: allNodes_mapDom comp_def nid_mapElems)

lemma wf_dom_mapDom: "wf_dom (mapDom g d) = wf_dom d"
  by (simp add: wf_dom_def nids_mapDom)

lemma freshId_mapDom: "freshId (mapDom g d) = freshId d"
  by (simp add: freshId_def nids_mapDom)

lemma mapDom_cong:
  assumes "\<And>x. x \<in> set (allNodes d) \<Longrightarrow> g (nid x) (elem x) = g' (nid x) (elem x)"
  shows "mapDom g d = mapDom g' d"
proof -
  have "mapElems g n = mapElems g' n" if "n \<in> set (document d) \<or> n \<in> set (detached d)" for n
  proof (rule mapElems_cong)
    fix x assume "x \<in> set (nodes n)"
    with that have "x \<in> set (allNodes d)" by (auto simp: allNodes_def nodesL_def)
    then show "g (nid x) (elem x) = g' (nid x) (elem x)" by (rule assms)
  qed
  then show ?thesis by (simp add: mapDom_def)
qed

lemma fold_updateAt:
  assumes idem: "\<And>e. f (f e) = f e"
  shows "fold (\<lambda>i. updateAt f i) is d = mapDom (\<lambda>j e. if j \<in> set is then f e else e) d"
proof (induction "is" arbitrary: d)
  case Nil
  show ?case by (simp add: mapDom_id)
next
  case (Cons i "is")
  have "fold (\<lambda>i. updateAt f i) (i # is) d =
        mapDom (\<lambda>j e. if j \<in> set is then f e else e) (updateAt f i d)"
    by (simp add: Cons.IH)
  also have "\<dots> = mapDom (\<lambda>j e. if j \<in> set (i # is) then f e else e) d"
    unfolding updateAt_mapDom mapDom_comp
    by (rule mapDom_cong) (auto simp: idem)
  finally show ?case .
qed

lemma find_map: "find P (map f xs) = map_option f (find (\<lambda>x. P (f x)) xs)"
  by (induction xs) auto

lemma lookupNode_mapDom: "lookupNode i (mapDom g d) = map_option (mapElems g) (lookupNode i d)"
  by (simp add: lookupNode_def allNodes_mapDom find_map nid_mapElems)

lemma childNodes_mapElems: "childNodes (mapElems g n) = map (mapElems g) (childNodes n)"
  by (cases n) simp

lemma parentElement_mapDom:
  "parentElement i (mapDom g d) = map_option (mapElems g) (parentElement i d)"
  by (simp add: parentElement_def allNodes_mapDom find_map childNodes_mapElems comp_def nid_mapElems image_image)

lemma dropWhile_map_nid:
  "dropWhile (\<lambda>k. nid k \<noteq> i) (map (mapElems g) ks) = map (mapElems g) (dropWhile (\<lambda>k. nid k \<noteq> i) ks)"
  by (induction ks) (auto simp: nid_mapElems)

lemma nextSibling_mapDom: "nextSibling i (mapDom g d) = nextSibling i d"
proof -
  have "(case map (mapElems g) xs of _ # n # _ \<Rightarrow> Some (nid n) | _ \<Rightarrow> None) =
        (case xs of _ # n # _ \<Rightarrow> Some (nid n) | _ \<Rightarrow> None)" for xs
    by (cases xs; cases "tl xs") (auto simp: nid_mapElems)
  then show ?thesis
    by (simp add: nextSibling_def parentElement_mapDom childNodes_mapElems dropWhile_map_nid
          split: option.splits)
qed


lemma sameBut_refl: "sameBut c e e" by (simp add: sameBut_def)

lemma sameBut_fields:
  assumes "sameBut c a b"
  shows "tag a = tag b" "ident a = ident b" "title a = title b" "src a = src b"
        "textContent a = textContent b"
        "c' \<noteq> c \<Longrightarrow> c' \<in> set (classList a) \<longleftrightarrow> c' \<in> set (classList b)"
proof -
  have eq: "classListRemove c a = classListRemove c b" using assms by (simp add: sameBut_def)
  show "tag a = tag b" using arg_cong[OF eq, of tag] by (simp add: classListRemove_def)
  show "ident a = ident b" using arg_cong[OF eq, of ident] by (simp add: classListRemove_def)
  show "title a = title b" using arg_cong[OF eq, of title] by (simp add: classListRemove_def)
  show "src a = src b" using arg_cong[OF eq, of src] by (simp add: classListRemove_def)
  show "textContent a = textContent b" using arg_cong[OF eq, of textContent] by (simp add: classListRemove_def)
  have "removeAll c (classList a) = removeAll c (classList b)"
    using arg_cong[OF eq, of classList] by (simp add: classListRemove_def)
  then have "set (removeAll c (classList a)) = set (removeAll c (classList b))" by simp
  then show "c' \<noteq> c \<Longrightarrow> c' \<in> set (classList a) \<longleftrightarrow> c' \<in> set (classList b)"
    by auto
qed

lemma sameBut_classListRemove: "sameBut c e (classListRemove c e)"
  by (simp add: sameBut_def classListRemove_def)

lemma sameBut_classListAdd: "sameBut c e (classListAdd c e)"
  by (simp add: sameBut_def classListRemove_def classListAdd_def)

lemma matchesSimple_sameBut:
  "sameBut c a b \<Longrightarrow> avoidsSimple c s \<Longrightarrow> matchesSimple s a = matchesSimple s b"
  by (cases s) (auto dest: sameBut_fields)

lemma matchesCompound_sameBut:
  "sameBut c a b \<Longrightarrow> list_all (avoidsSimple c) s \<Longrightarrow> matchesCompound s a = matchesCompound s b"
  by (induction s) (auto simp: matchesCompound_def dest: matchesSimple_sameBut)

lemma list_ex_sameBut:
  "list_all2 (sameBut c) as bs \<Longrightarrow> list_all (avoidsSimple c) s \<Longrightarrow>
   list_ex (matchesCompound s) as = list_ex (matchesCompound s) bs"
  by (induction as bs rule: list_all2_induct) (auto dest: matchesCompound_sameBut)

lemma matches_sameBut:
  "sameBut c a b \<Longrightarrow> list_all2 (sameBut c) as bs \<Longrightarrow> avoidsSel c s \<Longrightarrow>
   matches s as a = matches s bs b"
  by (cases s) (auto dest: matchesCompound_sameBut list_ex_sameBut)

lemma matchesAny_sameBut:
  "sameBut c a b \<Longrightarrow> list_all2 (sameBut c) as bs \<Longrightarrow> avoids c ss \<Longrightarrow>
   matchesAny ss as a = matchesAny ss bs b"
  by (induction ss) (auto simp: matchesAny_def avoids_def dest: matches_sameBut)

lemma selectFrom_mapElems:
  assumes g: "touchesOnly c g" and ss: "avoids c ss"
  shows "list_all2 (sameBut c) ancs ancs' \<Longrightarrow>
         selectFrom ss ancs' (mapElems g n) = map (mapElems g) (selectFrom ss ancs n)"
proof (induction n arbitrary: ancs ancs')
  case (Node j e ks)
  have e: "sameBut c e (g j e)" using g by (simp add: touchesOnly_def)
  have m: "matchesAny ss ancs' (g j e) = matchesAny ss ancs e"
    using matchesAny_sameBut[OF e Node.prems ss] by simp
  have k: "map (selectFrom ss (g j e # ancs')) (map (mapElems g) ks) =
           map (\<lambda>k. map (mapElems g) (selectFrom ss (e # ancs) k)) ks"
    unfolding map_map comp_def
    by (rule map_cong[OF refl]) (rule Node.IH, assumption, simp add: e Node.prems)
  show ?case
    by (simp only: mapElems.simps selectFrom.simps m k) (simp add: map_concat comp_def)
qed

lemma querySelectorAll_mapElems:
  assumes g: "touchesOnly c g" and ss: "avoids c ss" and a: "list_all2 (sameBut c) ancs ancs'"
  shows "querySelectorAll ss ancs' (mapElems g n) = map (mapElems g) (querySelectorAll ss ancs n)"
proof -
  have e: "sameBut c (elem n) (g (nid n) (elem n))" using g by (simp add: touchesOnly_def)
  have "map (selectFrom ss (g (nid n) (elem n) # ancs')) (map (mapElems g) (childNodes n)) =
        map (\<lambda>k. map (mapElems g) (selectFrom ss (elem n # ancs) k)) (childNodes n)"
    unfolding map_map comp_def
    by (rule map_cong[OF refl]) (rule selectFrom_mapElems[OF g ss], simp add: e a)
  then show ?thesis
    unfolding querySelectorAll_def elem_mapElems childNodes_mapElems
    by (simp only:) (simp add: map_concat comp_def)
qed

lemma docQuerySelectorAll_mapDom:
  assumes g: "touchesOnly c g" and ss: "avoids c ss"
  shows "docQuerySelectorAll ss (mapDom g d) = map (mapElems g) (docQuerySelectorAll ss d)"
proof -
  have "map (selectFrom ss []) (map (mapElems g) (document d)) =
        map (\<lambda>k. map (mapElems g) (selectFrom ss [] k)) (document d)"
    unfolding map_map comp_def
    by (rule map_cong[OF refl]) (rule selectFrom_mapElems[OF g ss], simp)
  then show ?thesis
    unfolding docQuerySelectorAll_def mapDom_def
    by (simp only: dom.simps) (simp add: map_concat comp_def)
qed

lemma firstSome_map_rel:
  "list_all2 (rel_option R) xs ys \<Longrightarrow> rel_option R (firstSome xs) (firstSome ys)"
  by (induction xs ys rule: list_all2_induct) (auto elim: option.rel_cases)

lemma pathTo_mapElems:
  assumes g: "touchesOnly c g"
  shows "rel_option (list_all2 (sameBut c)) (pathTo i n) (pathTo i (mapElems g n))"
proof (induction n)
  case (Node j e ks)
  have e: "sameBut c e (g j e)" using g by (simp add: touchesOnly_def)
  have "list_all2 (rel_option (list_all2 (sameBut c))) (map (pathTo i) ks)
          (map (pathTo i) (map (mapElems g) ks))"
    by (simp add: list_all2_map1 list_all2_map2 list.rel_refl_strong Node.IH)
  then have "rel_option (list_all2 (sameBut c)) (firstSome (map (pathTo i) ks))
          (firstSome (map (pathTo i) (map (mapElems g) ks)))"
    by (rule firstSome_map_rel)
  then show ?case
    by (auto simp: e list_all2_appendI elim!: option.rel_cases)
qed

lemma ancestorsOf_mapDom:
  assumes g: "touchesOnly c g"
  shows "list_all2 (sameBut c) (ancestorsOf i d) (ancestorsOf i (mapDom g d))"
proof -
  have "list_all2 (rel_option (list_all2 (sameBut c)))
          (map (pathTo i) (document d @ detached d))
          (map (pathTo i) (map (mapElems g) (document d @ detached d)))"
    by (simp add: list_all2_map1 list_all2_map2 list.rel_refl_strong pathTo_mapElems[OF g]
          del: map_append)
  then have "rel_option (list_all2 (sameBut c))
          (firstSome (map (pathTo i) (document d @ detached d)))
          (firstSome (map (pathTo i) (map (mapElems g) (document d @ detached d))))"
    by (rule firstSome_map_rel)
  then show ?thesis
    by (auto simp: ancestorsOf_def mapDom_def elim!: option.rel_cases)
qed

lemma elQuerySelectorAll_mapDom:
  assumes g: "touchesOnly c g" and ss: "avoids c ss"
  shows "elQuerySelectorAll ss i (mapDom g d) = map (mapElems g) (elQuerySelectorAll ss i d)"
  by (auto simp: elQuerySelectorAll_def lookupNode_mapDom
        querySelectorAll_mapElems[OF g ss ancestorsOf_mapDom[OF g]] split: option.splits)

lemma elQuerySelector_mapDom:
  assumes g: "touchesOnly c g" and ss: "avoids c ss"
  shows "elQuerySelector ss i (mapDom g d) = map_option (mapElems g) (elQuerySelector ss i d)"
  by (simp add: elQuerySelector_def elQuerySelectorAll_mapDom[OF g ss] split: list.splits)

section \<open>Facts about the exit thumbnails\<close>

lemma find_distinct:
  "distinct (map f xs) \<Longrightarrow> y \<in> set xs \<Longrightarrow> find (\<lambda>x. f x = f y) xs = Some y"
  by (induction xs) (auto simp: image_iff)

lemma wf_lookupNode:
  "wf_dom d \<Longrightarrow> y \<in> set (allNodes d) \<Longrightarrow> lookupNode (nid y) d = Some y"
  by (simp add: wf_dom_def lookupNode_def find_distinct)

lemma wf_nid_inj:
  "wf_dom d \<Longrightarrow> x \<in> set (allNodes d) \<Longrightarrow> y \<in> set (allNodes d) \<Longrightarrow> nid x = nid y \<Longrightarrow> x = y"
  by (metis wf_lookupNode option.inject)

lemma docQuerySelectorAll_Sel_filter:
  assumes "list_all isSel ss"
  shows "docQuerySelectorAll ss d = filter (\<lambda>x. matchesAny ss [] (elem x)) (nodesL (document d))"
proof -
  have "map (selectFrom ss []) (document d) =
        map (\<lambda>k. filter (\<lambda>x. matchesAny ss [] (elem x)) (nodes k)) (document d)"
    by (rule map_cong[OF refl]) (rule selectFrom_Sel_filter[OF assms])
  then show ?thesis
    unfolding docQuerySelectorAll_def nodesL_def
    by (simp only:) (simp add: filter_concat comp_def)
qed

lemma querySelectorAll_Sel_ancs:
  assumes "list_all isSel ss"
  shows "querySelectorAll ss ancs n = querySelectorAll ss [] n"
  by (simp add: querySelectorAll_Sel_filter[OF assms])

lemma exitEntries_iff:
  "x \<in> set (exitEntries d) \<longleftrightarrow>
   x \<in> set (nodesL (document d)) \<and> exitCharClass \<in> set (classList (elem x))"
  by (auto simp: exitEntries_def docQuerySelectorAll_Sel_filter isSel_def matchesAny_def
        matchesCompound_def)

lemma touchesOnly_ifs:
  "touchesOnly c (\<lambda>j e. if P j then classListRemove c e else e)"
  "touchesOnly c (\<lambda>j e. if P j then classListAdd c e else e)"
  by (simp_all add: touchesOnly_def sameBut_refl sameBut_classListRemove sameBut_classListAdd)

lemma touchesOnly_comp:
  "touchesOnly c g \<Longrightarrow> touchesOnly c g' \<Longrightarrow> touchesOnly c (\<lambda>j e. g j (g' j e))"
  by (auto simp: touchesOnly_def sameBut_def)

lemma avoids_hidden [simp]:
  "avoids hiddenClass [Sel [ByTag t]]"
  "avoids hiddenClass [Desc [ByClass ''avatar''] [ByTag ''img'']]"
  "avoids hiddenClass [Sel [ByClass exitCharClass]]"
  by (simp_all add: avoids_def hiddenClass_def exitCharClass_def)

lemma signatureOf_mapElems:
  assumes "touchesOnly c g"
  shows "signatureOf (map_option (mapElems g) q) = signatureOf q"
proof (cases q)
  case None then show ?thesis by simp
next
  case (Some i)
  have "sameBut c (elem i) (g (nid i) (elem i))" using assms by (simp add: touchesOnly_def)
  then have "src (g (nid i) (elem i)) = src (elem i)" by (simp add: sameBut_fields)
  then show ?thesis by (simp add: Some signatureOf_def elem_mapElems)
qed

lemma avatarSignature_mapDom:
  assumes "touchesOnly hiddenClass g"
  shows "avatarSignature el (mapDom g d) = avatarSignature el d"
  by (simp add: avatarSignature_def elQuerySelector_mapDom[OF assms] signatureOf_mapElems[OF assms])

lemma sleeperSignatures_mapDom:
  assumes "touchesOnly hiddenClass g"
  shows "sleeperSignatures els (mapDom g d) = sleeperSignatures els d"
  by (simp add: sleeperSignatures_def avatarSignature_mapDom[OF assms])

lemma collectAvatarUrls_set:
  "set (collectAvatarUrls els d urls) = set urls \<union> sleeperSignatures els d"
proof (induction els arbitrary: urls)
  case Nil
  show ?case by (simp add: sleeperSignatures_def map_filter_simps)
next
  case (Cons el els)
  have s: "sleeperSignatures (el # els) d =
        (case avatarSignature el d of None \<Rightarrow> {} | Some s \<Rightarrow> {s}) \<union> sleeperSignatures els d"
    by (simp add: sleeperSignatures_def map_filter_simps split: option.splits)
  show ?case
    unfolding s
    by (auto simp: Cons.IH avatarSignature_def signatureOf_def split: option.splits)
qed

lemma exitMatch_mapDom:
  assumes "touchesOnly hiddenClass g"
  shows "exitMatch urls j (mapDom g d) = exitMatch urls j d"
  by (simp add: exitMatch_def elQuerySelector_mapDom[OF assms] signatureOf_mapElems[OF assms])

lemma classListAdd_idem: "classListAdd c (classListAdd c e) = classListAdd c e"
  by (simp add: classListAdd_def)

lemma hideExitChars_mapDom:
  "hideExitChars urls is d =
   mapDom (\<lambda>j e. if j \<in> set is \<and> exitMatch urls j d then classListAdd hiddenClass e else e) d"
proof (induction "is" arbitrary: d)
  case Nil
  show ?case by (simp add: mapDom_id)
next
  case (Cons i "is")
  let ?d' = "updateAt (classListAdd hiddenClass) i d"
  have d': "?d' = mapDom (\<lambda>j e. if j = i then classListAdd hiddenClass e else e) d"
    by (rule updateAt_mapDom)
  have t: "touchesOnly hiddenClass (\<lambda>j e. if j = i then classListAdd hiddenClass e else e)"
    by (rule touchesOnly_ifs)
  have m: "exitMatch urls j ?d' = exitMatch urls j d" for j
    unfolding d' by (rule exitMatch_mapDom[OF t])
  show ?case
  proof (cases "exitMatch urls i d")
    case True
    then have "hideExitChars urls (i # is) d = hideExitChars urls is ?d'"
      by (auto simp: exitMatch_def signatureOf_def split: option.splits if_splits)
    also have "\<dots> = mapDom (\<lambda>j e. if j \<in> set is \<and> exitMatch urls j d
                                   then classListAdd hiddenClass e else e) ?d'"
      by (simp add: Cons.IH m)
    also have "\<dots> = mapDom (\<lambda>j e. if j \<in> set (i # is) \<and> exitMatch urls j d
                                   then classListAdd hiddenClass e else e) d"
      unfolding d' mapDom_comp
      by (rule mapDom_cong) (use True in \<open>auto simp: classListAdd_idem\<close>)
    finally show ?thesis .
  next
    case False
    then have "hideExitChars urls (i # is) d = hideExitChars urls is d"
      by (auto simp: exitMatch_def signatureOf_def split: option.splits if_splits)
    also have "\<dots> = mapDom (\<lambda>j e. if j \<in> set (i # is) \<and> exitMatch urls j d
                                   then classListAdd hiddenClass e else e) d"
      unfolding Cons.IH
      by (rule mapDom_cong) (use False in auto)
    finally show ?thesis .
  qed
qed

lemma resetExitChars_mapDom:
  "resetExitChars d =
   mapDom (\<lambda>j e. if j \<in> nid ` set (docQuerySelectorAll
                        [Sel [ByClass exitCharClass, ByClass hiddenClass]] d)
                  then classListRemove hiddenClass e else e) d"
proof -
  have "resetExitChars d =
        fold (\<lambda>i. updateAt (classListRemove hiddenClass) i)
          (map nid (docQuerySelectorAll [Sel [ByClass exitCharClass, ByClass hiddenClass]] d)) d"
    by (simp add: resetExitChars_def fold_map comp_def)
  also have "\<dots> = mapDom (\<lambda>j e. if j \<in> set (map nid (docQuerySelectorAll
                        [Sel [ByClass exitCharClass, ByClass hiddenClass]] d))
                  then classListRemove hiddenClass e else e) d"
    by (rule fold_updateAt) (rule classListRemove_idem)
  finally show ?thesis by simp
qed

section \<open>The effect of the exit filter\<close>

lemma filterExitChars_mapDom:
  "filterExitChars se sleepers d =
   mapDom (\<lambda>j e.
      (let e' = (if j \<in> nid ` set (docQuerySelectorAll
                        [Sel [ByClass exitCharClass, ByClass hiddenClass]] d)
                 then classListRemove hiddenClass e else e)
       in if se \<and> j \<in> nid ` set (exitEntries d) \<and>
             exitMatch (collectAvatarUrls sleepers d []) j d
          then classListAdd hiddenClass e' else e')) d"
proof -
  let ?R = "nid ` set (docQuerySelectorAll [Sel [ByClass exitCharClass, ByClass hiddenClass]] d)"
  let ?gR = "\<lambda>j e. if j \<in> ?R then classListRemove hiddenClass e else e"
  let ?d1 = "resetExitChars d"
  have d1: "?d1 = mapDom ?gR d" by (rule resetExitChars_mapDom)
  have t: "touchesOnly hiddenClass ?gR" by (rule touchesOnly_ifs)
  let ?urls = "collectAvatarUrls sleepers d []"
  have urls1: "set (collectAvatarUrls sleepers ?d1 []) = set ?urls"
    by (simp add: collectAvatarUrls_set d1 sleeperSignatures_mapDom[OF t])
  have ex1: "map nid (exitEntries ?d1) = map nid (exitEntries d)"
    unfolding d1 exitEntries_def
    by (simp add: docQuerySelectorAll_mapDom[OF t] comp_def nid_mapElems)
  have m1: "exitMatch u j ?d1 = exitMatch u j d" for u j
    unfolding d1 by (rule exitMatch_mapDom[OF t])
  have m2: "exitMatch (collectAvatarUrls sleepers ?d1 []) j d = exitMatch ?urls j d" for j
    by (simp add: exitMatch_def urls1 split: option.splits)
  have sl: "sleepers = [] \<Longrightarrow> ?urls = []" by simp
  have nomatch: "?urls = [] \<Longrightarrow> \<not> exitMatch ?urls j d" for j
    by (simp add: exitMatch_def split: option.splits)
  have e1: "collectAvatarUrls sleepers ?d1 [] = [] \<longleftrightarrow> ?urls = []"
    using urls1 by (metis set_empty)
  show ?thesis
  proof (cases "se \<and> sleepers \<noteq> [] \<and> ?urls \<noteq> []")
    case True
    then have "filterExitChars se sleepers d =
          hideExitChars (collectAvatarUrls sleepers ?d1 []) (getExitCharElements ?d1) ?d1"
      by (simp add: filterExitChars_def Let_def e1)
    also have "\<dots> = mapDom (\<lambda>j e. if j \<in> set (map nid (exitEntries d)) \<and> exitMatch ?urls j d
                                  then classListAdd hiddenClass e else e) ?d1"
      unfolding hideExitChars_mapDom getExitCharElements_def exitEntries_def[symmetric] ex1 m1 m2 ..
    also have "\<dots> = mapDom (\<lambda>j e. (let e' = ?gR j e
            in if se \<and> j \<in> nid ` set (exitEntries d) \<and> exitMatch ?urls j d
               then classListAdd hiddenClass e' else e')) d"
      unfolding d1 mapDom_comp using True by (simp add: Let_def)
    finally show ?thesis .
  next
    case False
    then have n: "\<not> (se \<and> exitMatch ?urls j d)" for j
      using sl nomatch by blast
    from False have "filterExitChars se sleepers d = ?d1"
      by (auto simp: filterExitChars_def Let_def e1)
    also have "\<dots> = mapDom (\<lambda>j e. (let e' = ?gR j e
            in if se \<and> j \<in> nid ` set (exitEntries d) \<and> exitMatch ?urls j d
               then classListAdd hiddenClass e' else e')) d"
      unfolding d1 by (rule mapDom_cong) (use n in \<open>auto simp: Let_def\<close>)
    finally show ?thesis .
  qed
qed


lemma filterExitChars_change:
  "filterExitChars se sleepers d = mapDom (exitFilterChange se sleepers d) d"
  unfolding exitFilterChange_def[abs_def] by (rule filterExitChars_mapDom)

lemma touchesOnly_exitFilterChange: "touchesOnly hiddenClass (exitFilterChange se sleepers d)"
  unfolding touchesOnly_def sameBut_def exitFilterChange_def Let_def
  by (auto simp: classListRemove_def classListAdd_def)

lemma exitEntries_allNodes: "y \<in> set (exitEntries d) \<Longrightarrow> y \<in> set (allNodes d)"
  by (simp add: exitEntries_iff allNodes_def)

lemma elQuerySelector_Sel_wf:
  assumes "wf_dom d" "y \<in> set (allNodes d)" "list_all isSel ss"
  shows "elQuerySelector ss (nid y) d = querySelector ss [] y"
  by (simp add: elQuerySelector_def elQuerySelectorAll_def wf_lookupNode[OF assms(1,2)]
        querySelector_def querySelectorAll_Sel_ancs[OF assms(3), of "ancestorsOf (nid y) d"])

lemma exitMatch_wf:
  assumes "wf_dom d" "y \<in> set (allNodes d)"
  shows "exitMatch urls (nid y) d \<longleftrightarrow> exitSignature y \<in> Some ` set urls"
  by (auto simp: exitMatch_def exitSignature_def elQuerySelector_Sel_wf[OF assms] isSel_def
        split: option.splits)

lemma hidden_exit_in_reset_set:
  assumes wf: "wf_dom d" and y: "y \<in> set (exitEntries d)"
  shows "nid y \<in> nid ` set (docQuerySelectorAll [Sel [ByClass exitCharClass, ByClass hiddenClass]] d)
         \<longleftrightarrow> isHidden y"
proof -
  have q: "z \<in> set (docQuerySelectorAll [Sel [ByClass exitCharClass, ByClass hiddenClass]] d) \<longleftrightarrow>
           z \<in> set (exitEntries d) \<and> isHidden z" for z
    by (auto simp: exitEntries_def docQuerySelectorAll_Sel_filter isSel_def matchesAny_def
          matchesCompound_def isHidden_def)
  show ?thesis
  proof
    assume "nid y \<in> nid ` set (docQuerySelectorAll [Sel [ByClass exitCharClass, ByClass hiddenClass]] d)"
    then obtain z where z: "z \<in> set (exitEntries d)" "isHidden z" "nid z = nid y"
      by (auto simp: q)
    then have "z = y"
      using wf_nid_inj[OF wf exitEntries_allNodes[OF z(1)] exitEntries_allNodes[OF y]] by simp
    with z show "isHidden y" by simp
  next
    assume "isHidden y"
    with y show "nid y \<in> nid ` set (docQuerySelectorAll [Sel [ByClass exitCharClass, ByClass hiddenClass]] d)"
      by (auto simp: q)
  qed
qed

lemma exitFilterChange_hidden:
  assumes wf: "wf_dom d" and y: "y \<in> set (exitEntries d)"
  shows "hiddenClass \<in> set (classList (exitFilterChange se sleepers d (nid y) (elem y))) \<longleftrightarrow>
         se \<and> exitSignature y \<in> Some ` sleeperSignatures sleepers d"
proof -
  have u: "set (collectAvatarUrls sleepers d []) = sleeperSignatures sleepers d"
    by (simp add: collectAvatarUrls_set)
  have m: "exitMatch (collectAvatarUrls sleepers d []) (nid y) d \<longleftrightarrow>
           exitSignature y \<in> Some ` sleeperSignatures sleepers d"
    by (simp add: exitMatch_wf[OF wf exitEntries_allNodes[OF y]] u)
  have r: "nid y \<in> nid ` set (docQuerySelectorAll [Sel [ByClass exitCharClass, ByClass hiddenClass]] d)
         \<longleftrightarrow> hiddenClass \<in> set (classList (elem y))"
    using hidden_exit_in_reset_set[OF wf y] by (simp add: isHidden_def)
  have i: "nid y \<in> nid ` set (exitEntries d)" using y by simp
  show ?thesis
    unfolding exitFilterChange_def Let_def m r
    using i by (auto simp: classListAdd_def classListRemove_def)
qed

lemma exitEntries_mapDom:
  assumes "touchesOnly hiddenClass g"
  shows "exitEntries (mapDom g d) = map (mapElems g) (exitEntries d)"
  by (simp add: exitEntries_def docQuerySelectorAll_mapDom[OF assms])


lemmas sample_defs =
  sampleExitPage_def page_def sampleRoom_def sampleExit_def sampleChar_def createElement_def
  exitCharClass_def hiddenClass_def asleepClass_def inactiveClass_def charClass_def

lemma wf_sampleExitPage: "wf_dom sampleExitPage"
  by (simp add: wf_dom_def allNodes_def nodesL_def sample_defs)

section \<open>Identities under insertion and removal\<close>

lemma appendChildIn_edit: "appendChildIn p new n = editChildren p (\<lambda>ks. ks @ [new]) n"
  by (induction n) simp

lemma insertBeforeIn_edit:
  "insertBeforeIn p new r n =
   editChildren p (\<lambda>ks. takeWhile (\<lambda>k. nid k \<noteq> r) ks @ new # dropWhile (\<lambda>k. nid k \<noteq> r) ks) n"
  by (induction n) simp

lemma splices_append: "splices new (\<lambda>ks. ks @ [new])"
  unfolding splices_def
proof
  fix ks :: "node list"
  have "ks @ [new] = take (length ks) ks @ new # drop (length ks) ks" by simp
  then show "\<exists>m. ks @ [new] = take m ks @ new # drop m ks" by blast
qed

lemma splices_insertBefore:
  "splices new (\<lambda>ks. takeWhile (\<lambda>k. nid k \<noteq> r) ks @ new # dropWhile (\<lambda>k. nid k \<noteq> r) ks)"
  unfolding splices_def
proof
  fix ks :: "node list"
  show "\<exists>m. takeWhile (\<lambda>k. nid k \<noteq> r) ks @ new # dropWhile (\<lambda>k. nid k \<noteq> r) ks =
                 take m ks @ new # drop m ks"
    by (rule exI[of _ "length (takeWhile (\<lambda>k. nid k \<noteq> r) ks)"])
       (simp add: takeWhile_eq_take[symmetric] dropWhile_eq_drop[symmetric])
qed

lemma nids_Cons: "nids (n # ns) = map nid (nodes n) @ nids ns"
  by (simp add: nids_def nodesL_def)

lemma nids_Nil [simp]: "nids [] = []"
  by (simp add: nids_def nodesL_def)

lemma nids_append: "nids (xs @ ys) = nids xs @ nids ys"
  by (simp add: nids_def nodesL_def)

lemma nodes_Node_nids: "map nid (nodes (Node j e ks)) = j # nids ks"
  by (simp add: nids_def nodesL_def)

lemma nids_single: "nids [n] = map nid (nodes n)"
  by (simp add: nids_Cons)

lemma nids_flat: "nids ns = map fst (flat ns)"
  by (simp add: nids_def flat_def comp_def)

lemma flat_Cons: "flat (n # ns) = flat [n] @ flat ns"
  by (simp add: flat_def nodesL_def)

lemma flat_Nil [simp]: "flat [] = []"
  by (simp add: flat_def nodesL_def)

lemma flat_append: "flat (xs @ ys) = flat xs @ flat ys"
  by (simp add: flat_def nodesL_def)

lemma flat_Node: "flat [Node j e ks] = (j, e) # flat ks"
  by (simp add: flat_def nodesL_def)

lemma mset_flat_splice:
  "mset (flat (take m ks @ new # drop m ks)) = mset (flat ks) + mset (flat [new])"
proof -
  have "mset (flat ks) = mset (flat (take m ks @ drop m ks))" by simp
  also have "\<dots> = mset (flat (take m ks)) + mset (flat (drop m ks))"
    by (simp only: flat_append mset_append)
  finally show ?thesis
    by (simp add: flat_append flat_Cons[of new "drop m ks"])
qed

lemma forest_induct [case_names Nil Node]:
  assumes "P []"
    and "\<And>j e ks ns. P ks \<Longrightarrow> P ns \<Longrightarrow> P (Node j e ks # ns)"
  shows "P ns"
proof (induction "size_list size ns" arbitrary: ns rule: less_induct)
  case less
  show ?case
  proof (cases ns)
    case Nil
    then show ?thesis by (simp add: assms(1))
  next
    case (Cons n ns')
    obtain j e ks where n: "n = Node j e ks" by (cases n)
    have "size_list size ks < size_list size ns" "size_list size ns' < size_list size ns"
      by (simp_all add: Cons n)
    then have "P ks" "P ns'" by (auto intro: less)
    then show ?thesis unfolding Cons n by (rule assms(2))
  qed
qed

lemma distinct_nids_ConsD:
  assumes "distinct (nids (Node j e ks # ns))"
  shows "distinct (nids ks)" "distinct (nids ns)" "j \<notin> set (nids ks)" "j \<notin> set (nids ns)"
        "set (nids ks) \<inter> set (nids ns) = {}"
  using assms unfolding nids_Cons nodes_Node_nids by auto

lemma mset_flat_editChildren:
  assumes F: "splices new F"
  shows "distinct (nids ns) \<Longrightarrow>
         mset (flat (map (editChildren p F) ns)) =
         mset (flat ns) + (if p \<in> set (nids ns) then mset (flat [new]) else {#})"
proof (induction ns rule: forest_induct)
  case Nil
  show ?case by simp
next
  case (Node j e ks ns)
  note d = distinct_nids_ConsD[OF Node.prems]
  note IHk = Node.IH(1)[OF d(1)] and IHn = Node.IH(2)[OF d(2)]
  have c: "flat (Node j e ks # ns) = (j, e) # flat ks @ flat ns"
    by (simp add: flat_Cons[of _ ns] flat_Node)
  have n: "set (nids (Node j e ks # ns)) = insert j (set (nids ks) \<union> set (nids ns))"
    by (simp add: nids_Cons nodes_Node_nids del: nodes.simps)
  show ?case
  proof (cases "j = p")
    case True
    obtain m where m: "F ks = take m ks @ new # drop m ks"
      using F unfolding splices_def by blast
    have "p \<notin> set (nids ns)" using d(4) True by simp
    then have "mset (flat (map (editChildren p F) ns)) = mset (flat ns)"
      using IHn by simp
    then have "mset (flat (map (editChildren p F) (Node j e ks # ns))) =
          {#(j, e)#} + (mset (flat ks) + mset (flat [new])) + mset (flat ns)"
      using True
      by (simp add: flat_Cons[of _ "map (editChildren p F) ns"] flat_Node m mset_flat_splice)
    then show ?thesis unfolding c n using True by simp
  next
    case False
    have x: "\<not> (p \<in> set (nids ks) \<and> p \<in> set (nids ns))" using d(5) by auto
    have "mset (flat (map (editChildren p F) (Node j e ks # ns))) =
          {#(j, e)#} + mset (flat (map (editChildren p F) ks)) +
          mset (flat (map (editChildren p F) ns))"
      using False
      by (simp add: flat_Cons[of _ "map (editChildren p F) ns"] flat_Node)
    then show ?thesis unfolding c n IHk IHn using False x by auto
  qed
qed

lemma mset_nids_editChildren:
  assumes F: "splices new F" and d: "distinct (nids ns)"
  shows "mset (nids (map (editChildren p F) ns)) =
         mset (nids ns) + (if p \<in> set (nids ns) then mset (nids [new]) else {#})"
proof -
  have "mset (nids (map (editChildren p F) ns)) =
        image_mset fst (mset (flat (map (editChildren p F) ns)))"
    by (simp add: nids_flat)
  also have "\<dots> = image_mset fst (mset (flat ns) +
                     (if p \<in> set (nids ns) then mset (flat [new]) else {#}))"
    by (simp only: mset_flat_editChildren[OF F d])
  finally show ?thesis by (simp add: nids_flat)
qed

lemma nids_allNodes: "map nid (allNodes d) = nids (document d @ detached d)"
  by (simp add: allNodes_def nids_def nodesL_def)

lemma wf_dom_nids: "wf_dom d = distinct (nids (document d @ detached d))"
  by (simp add: wf_dom_def nids_allNodes)

lemma foldr_max_ge: "x \<in> set xs \<Longrightarrow> x \<le> foldr max xs (0::nat)"
  by (induction xs) (auto simp: max_def)

lemma freshId_gt: "x \<in> set (allNodes d) \<Longrightarrow> nid x < freshId d"
  unfolding freshId_def using foldr_max_ge[of "nid x" "map nid (allNodes d)"] by auto

lemma freshId_gt_nids: "i \<in> set (nids (document d @ detached d)) \<Longrightarrow> i < freshId d"
  unfolding nids_allNodes[symmetric] using freshId_gt by auto

lemma appendChild_edit: "appendChild p new d = editDom p (\<lambda>ks. ks @ [new]) d"
  by (simp add: appendChild_def editDom_def appendChildIn_edit[abs_def])

lemma wf_dom_editDom:
  assumes F: "splices new F" and wf: "wf_dom d"
    and new: "distinct (nids [new])" "\<And>i. i \<in> set (nids [new]) \<Longrightarrow> freshId d \<le> i"
  shows "wf_dom (editDom p F d)"
proof -
  let ?ns = "document d @ detached d"
  have d: "distinct (nids ?ns)" using wf by (simp add: wf_dom_nids)
  have dis: "set (nids ?ns) \<inter> set (nids [new]) = {}"
    using new(2) freshId_gt_nids[of _ d] by fastforce
  have m: "mset (nids (map (editChildren p F) ?ns)) =
        mset (nids ?ns) + (if p \<in> set (nids ?ns) then mset (nids [new]) else {#})"
    by (rule mset_nids_editChildren[OF F d])
  have "distinct (nids (map (editChildren p F) ?ns))"
  proof (cases "p \<in> set (nids ?ns)")
    case True
    then have "mset (nids (map (editChildren p F) ?ns)) = mset (nids ?ns @ nids [new])"
      using m by simp
    moreover have "distinct (nids ?ns @ nids [new])" using d new(1) dis by simp
    ultimately show ?thesis by (metis mset_eq_imp_distinct_iff)
  next
    case False
    then have "mset (nids (map (editChildren p F) ?ns)) = mset (nids ?ns)" using m by simp
    then show ?thesis using d by (metis mset_eq_imp_distinct_iff)
  qed
  then show ?thesis by (simp add: wf_dom_nids editDom_def)
qed

lemma detach_Node: "detach i (Node j e ks) = Node j e (detachL i ks)"
  by (simp add: detachL_def)

lemma detachL_Cons:
  "detachL i (n # ns) = (if nid n = i then detachL i ns else detach i n # detachL i ns)"
  by (simp add: detachL_def)

lemma detachL_Nil [simp]: "detachL i [] = []"
  by (simp add: detachL_def)

lemma detachL_absent: "i \<notin> set (nids ns) \<Longrightarrow> detachL i ns = ns"
proof (induction ns rule: forest_induct)
  case Nil show ?case by simp
next
  case (Node j e ks ns)
  from Node.prems have "j \<noteq> i" "i \<notin> set (nids ks)" "i \<notin> set (nids ns)"
    unfolding nids_Cons nodes_Node_nids by auto
  then show ?case
    by (simp add: detachL_Cons detach_Node Node.IH del: detach.simps)
qed

lemma subtreeIn_Nil [simp]: "subtreeIn i [] = None"
  by (simp add: subtreeIn_def nodesL_def)

lemma find_append_case:
  "find P (xs @ ys) = (case find P xs of None \<Rightarrow> find P ys | Some x \<Rightarrow> Some x)"
  by (induction xs) auto

lemma subtreeIn_Cons:
  "subtreeIn i (Node j e ks # ns) =
     (if j = i then Some (Node j e ks)
      else case subtreeIn i ks of Some x \<Rightarrow> Some x | None \<Rightarrow> subtreeIn i ns)"
  by (simp add: subtreeIn_def nodesL_def find_append_case split: option.splits)

lemma subtreeIn_None: "subtreeIn i ns = None \<longleftrightarrow> i \<notin> set (nids ns)"
  by (auto simp: subtreeIn_def nids_def find_None_iff)

lemma subtreeIn_Some_nid: "subtreeIn i ns = Some x \<Longrightarrow> nid x = i \<and> x \<in> set (nodesL ns)"
  unfolding subtreeIn_def by (auto dest: find_Some_iff[THEN iffD1] simp: in_set_conv_nth)

lemma mset_flat_detachL:
  "distinct (nids ns) \<Longrightarrow>
   mset (flat (detachL i ns)) +
     (case subtreeIn i ns of None \<Rightarrow> {#} | Some x \<Rightarrow> mset (flat [x])) = mset (flat ns)"
proof (induction ns rule: forest_induct)
  case Nil show ?case by simp
next
  case (Node j e ks ns)
  note d = distinct_nids_ConsD[OF Node.prems]
  note IHk = Node.IH(1)[OF d(1)] and IHn = Node.IH(2)[OF d(2)]
  have c: "flat (Node j e ks # ns) = (j, e) # flat ks @ flat ns"
    by (simp add: flat_Cons[of _ ns] flat_Node)
  show ?case
  proof (cases "j = i")
    case True
    then have "i \<notin> set (nids ns)" using d(4) by simp
    then show ?thesis
      using True by (simp add: detachL_Cons subtreeIn_Cons detachL_absent flat_Cons[of _ ns])
  next
    case False
    have e: "flat (detach i (Node j e ks) # detachL i ns) =
             (j, e) # flat (detachL i ks) @ flat (detachL i ns)"
      by (simp add: detach_Node flat_Cons[of _ "detachL i ns"] flat_Node del: detach.simps)
    show ?thesis
    proof (cases "subtreeIn i ks")
      case None
      then show ?thesis
        using False IHk IHn
        by (simp add: detachL_Cons subtreeIn_Cons e c del: detach.simps)
    next
      case (Some x)
      then have "i \<in> set (nids ks)" using subtreeIn_None[of i ks] by simp
      then have "i \<notin> set (nids ns)" using d(5) by auto
      then have "subtreeIn i ns = None" by (simp add: subtreeIn_None)
      then show ?thesis
        using False IHk IHn Some
        by (simp add: detachL_Cons subtreeIn_Cons e c del: detach.simps)
    qed
  qed
qed

lemma lookupNode_subtreeIn: "lookupNode i d = subtreeIn i (document d @ detached d)"
  by (simp add: lookupNode_def subtreeIn_def allNodes_def nodesL_def)

lemma removeNode_detachL:
  "removeNode i d =
     (case lookupNode i d of
        None \<Rightarrow> d
      | Some n \<Rightarrow>
          if i \<in> nid ` set (detached d) then d
          else \<lparr>document = detachL i (document d), detached = detachL i (detached d) @ [n]\<rparr>)"
proof -
  have "i \<notin> nid ` set ns \<Longrightarrow> map (detach i) ns = detachL i ns" for ns
    by (induction ns) (auto simp: detachL_def)
  then show ?thesis
    by (auto simp: removeNode_def detachL_def split: option.splits)
qed

lemma detachL_append: "detachL i (xs @ ys) = detachL i xs @ detachL i ys"
  by (simp add: detachL_def)

lemma wf_dom_removeNode:
  assumes wf: "wf_dom d"
  shows "wf_dom (removeNode i d)"
proof (cases "lookupNode i d")
  case None
  then show ?thesis using wf by (simp add: removeNode_def)
next
  case (Some n)
  show ?thesis
  proof (cases "i \<in> nid ` set (detached d)")
    case True
    then show ?thesis using wf Some by (simp add: removeNode_detachL)
  next
    case False
    let ?ns = "document d @ detached d"
    have d: "distinct (nids ?ns)" using wf by (simp add: wf_dom_nids)
    have s: "subtreeIn i ?ns = Some n" using Some by (simp add: lookupNode_subtreeIn)
    have "mset (flat (detachL i ?ns)) + mset (flat [n]) = mset (flat ?ns)"
      using mset_flat_detachL[OF d, of i] s by simp
    then have "mset (flat (detachL i ?ns @ [n])) = mset (flat ?ns)"
      by (simp add: flat_append)
    then have "mset (nids (detachL i ?ns @ [n])) = mset (nids ?ns)"
      unfolding nids_flat by (metis mset_map)
    then have "distinct (nids (detachL i ?ns @ [n]))"
      using d by (metis mset_eq_imp_distinct_iff)
    then show ?thesis
      using Some False by (simp add: removeNode_detachL wf_dom_nids detachL_append)
  qed
qed

section \<open>Traces and lookups under insertion\<close>

lemma tr_Nil [simp]: "tr Q [] = []"
  by (simp add: tr_def)

lemma tr_append: "tr Q (xs @ ys) = tr Q xs @ tr Q ys"
  by (simp add: tr_def flat_append)

lemma tr_Cons: "tr Q (Node j e ks # ns) = (if Q e then [j] else []) @ tr Q ks @ tr Q ns"
  by (simp add: tr_def flat_Cons[of _ ns] flat_Node)

lemma tr_single: "tr Q [Node j e ks] = (if Q e then [j] else []) @ tr Q ks"
  using tr_Cons[of Q j e ks "[]"] by simp

lemma tr_take_drop: "tr Q (take m ks) @ tr Q (drop m ks) = tr Q ks"
  using tr_append[of Q "take m ks" "drop m ks"] by simp

lemma tr_splice:
  "tr Q [new] = [] \<Longrightarrow> tr Q (take m ks @ new # drop m ks) = tr Q ks"
proof -
  assume n: "tr Q [new] = []"
  have "tr Q (take m ks @ new # drop m ks) = tr Q (take m ks) @ tr Q (new # drop m ks)"
    by (simp only: tr_append)
  moreover have "tr Q (new # drop m ks) = tr Q (drop m ks)"
    using tr_append[of Q "[new]" "drop m ks"] n by simp
  ultimately show ?thesis by (simp add: tr_take_drop)
qed

lemma tr_editChildren:
  assumes F: "splices new F" and n: "tr Q [new] = []"
  shows "tr Q (map (editChildren p F) ns) = tr Q ns"
proof (induction ns rule: forest_induct)
  case Nil show ?case by simp
next
  case (Node j e ks ns)
  obtain m where m: "F ks = take m ks @ new # drop m ks"
    using F unfolding splices_def by blast
  show ?case
    by (simp add: tr_Cons Node.IH m tr_splice[OF n])
qed

lemma tr_mapElems:
  assumes "\<And>j e. Q (g j e) = Q e"
  shows "tr Q (map (mapElems g) ns) = tr Q ns"
proof (induction ns rule: forest_induct)
  case Nil show ?case by simp
next
  case (Node j e ks ns)
  show ?case by (simp add: tr_Cons Node.IH assms)
qed

lemma tr_detachL:
  "(\<And>x. x \<in> set (nodesL ns) \<Longrightarrow> nid x = i \<Longrightarrow> tr Q [x] = []) \<Longrightarrow>
   tr Q (detachL i ns) = tr Q ns"
proof (induction ns rule: forest_induct)
  case Nil show ?case by simp
next
  case (Node j e ks ns)
  have k: "tr Q (detachL i ks) = tr Q ks"
    by (rule Node.IH(1)) (rule Node.prems, auto simp: nodesL_def)
  have n: "tr Q (detachL i ns) = tr Q ns"
    by (rule Node.IH(2)) (rule Node.prems, auto simp: nodesL_def)
  show ?case
  proof (cases "j = i")
    case True
    have "tr Q [Node j e ks] = []"
      by (rule Node.prems) (auto simp: nodesL_def True)
    then have "tr Q (Node j e ks # ns) = tr Q ns"
      using tr_append[of Q "[Node j e ks]" ns] by simp
    then show ?thesis using True n by (simp add: detachL_Cons)
  next
    case False
    then show ?thesis
      by (simp add: detachL_Cons detach_Node tr_Cons k n del: detach.simps)
  qed
qed

lemma tr_nodes:
  "tr Q ns = map nid (filter (\<lambda>x. Q (elem x)) (nodesL ns))"
  by (simp add: tr_def flat_def filter_map comp_def)

lemma editChildren_absent: "p \<notin> set (nids [n]) \<Longrightarrow> editChildren p F n = n"
proof (induction n)
  case (Node j e ks)
  have "j \<noteq> p" using Node.prems by (simp add: nids_single)
  moreover have "map (editChildren p F) ks = ks"
  proof (rule map_idI)
    fix k assume k: "k \<in> set ks"
    have "p \<notin> set (nids [k])"
      using Node.prems k by (auto simp: nids_single nodes_Node_nids nids_def nodesL_def)
    then show "editChildren p F k = k" by (rule Node.IH[OF k])
  qed
  ultimately show ?case by simp
qed

lemma subtreeIn_append:
  "subtreeIn s (xs @ ys) = (case subtreeIn s xs of None \<Rightarrow> subtreeIn s ys | Some x \<Rightarrow> Some x)"
  by (simp add: subtreeIn_def nodesL_def find_append_case split: option.splits)

lemma subtreeIn_single_absent: "s \<notin> set (nids [n]) \<Longrightarrow> subtreeIn s [n] = None"
  by (simp add: subtreeIn_None)

lemma subtreeIn_splice:
  assumes "s \<notin> set (nids [new])"
  shows "subtreeIn s (take m ks @ new # drop m ks) = subtreeIn s ks"
proof -
  have "subtreeIn s (take m ks @ new # drop m ks) =
        (case subtreeIn s (take m ks) of None \<Rightarrow> subtreeIn s ([new] @ drop m ks) | Some x \<Rightarrow> Some x)"
    by (simp only: subtreeIn_append append_Cons append_Nil)
  also have "subtreeIn s ([new] @ drop m ks) = subtreeIn s (drop m ks)"
    by (simp only: subtreeIn_append subtreeIn_single_absent[OF assms]) simp
  also have "(case subtreeIn s (take m ks) of None \<Rightarrow> subtreeIn s (drop m ks) | Some x \<Rightarrow> Some x) =
             subtreeIn s (take m ks @ drop m ks)"
    by (simp only: subtreeIn_append)
  finally show ?thesis by simp
qed

lemma subtreeIn_sub: "subtreeIn s ks = Some x \<Longrightarrow> set (nids [x]) \<subseteq> set (nids ks)"
proof (induction ks arbitrary: x rule: forest_induct)
  case Nil then show ?case by simp
next
  case (Node j e ks ns)
  show ?case
  proof (cases "j = s")
    case True
    with Node.prems have "x = Node j e ks" by (simp add: subtreeIn_Cons)
    then show ?thesis by (simp add: nids_Cons[of _ ns] nids_single del: nodes.simps)
  next
    case False
    show ?thesis
    proof (cases "subtreeIn s ks")
      case None
      with False Node.prems have "subtreeIn s ns = Some x" by (simp add: subtreeIn_Cons)
      then show ?thesis using Node.IH(2) by (auto simp: nids_Cons[of _ ns])
    next
      case (Some y)
      with False Node.prems have "subtreeIn s ks = Some x" by (simp add: subtreeIn_Cons)
      then have "set (nids [x]) \<subseteq> set (nids ks)" by (rule Node.IH(1))
      then show ?thesis by (auto simp: nids_Cons[of _ ns] nodes_Node_nids simp del: nodes.simps)
    qed
  qed
qed

lemma subtreeIn_editChildren:
  assumes F: "splices new F" and s: "s \<notin> set (nids [new])"
  shows "distinct (nids ns) \<Longrightarrow>
         subtreeIn s (map (editChildren p F) ns) = map_option (editChildren p F) (subtreeIn s ns)"
proof (induction ns rule: forest_induct)
  case Nil show ?case by simp
next
  case (Node j e ks ns)
  note d = distinct_nids_ConsD[OF Node.prems]
  note IHk = Node.IH(1)[OF d(1)] and IHn = Node.IH(2)[OF d(2)]
  show ?case
  proof (cases "j = s")
    case True
    then show ?thesis by (simp add: subtreeIn_Cons)
  next
    case js: False
    show ?thesis
    proof (cases "j = p")
      case True
      obtain m where m: "F ks = take m ks @ new # drop m ks"
        using F unfolding splices_def by blast
      have k: "subtreeIn s (F ks) = subtreeIn s ks"
        unfolding m by (rule subtreeIn_splice[OF s])
      have "editChildren p F x = x" if "subtreeIn s ks = Some x" for x
      proof (rule editChildren_absent)
        show "p \<notin> set (nids [x])" using subtreeIn_sub[OF that] d(3) True by auto
      qed
      then show ?thesis
        using True js IHn by (auto simp: subtreeIn_Cons k split: option.splits)
    next
      case False
      then show ?thesis
        using js IHk IHn by (auto simp: subtreeIn_Cons split: option.splits)
    qed
  qed
qed

lemma lookupNode_editDom:
  assumes F: "splices new F" and s: "s \<notin> set (nids [new])" and wf: "wf_dom d"
  shows "lookupNode s (editDom p F d) = map_option (editChildren p F) (lookupNode s d)"
  using subtreeIn_editChildren[OF F s, of "document d @ detached d" p] wf
  by (simp add: lookupNode_subtreeIn editDom_def wf_dom_nids)

section \<open>Lookups under removal\<close>

lemma nodesL_Cons: "nodesL (n # ns) = nodes n @ nodesL ns"
  by (simp add: nodesL_def)

lemma nodesL_Nil [simp]: "nodesL [] = []"
  by (simp add: nodesL_def)

lemma nodesL_append: "nodesL (xs @ ys) = nodesL xs @ nodesL ys"
  by (simp add: nodesL_def)

lemma nodes_Node: "nodes (Node j e ks) = Node j e ks # nodesL ks"
  by (simp add: nodesL_def)

lemma nodes_sub: "x \<in> set (nodesL ns) \<Longrightarrow> set (nodes x) \<subseteq> set (nodesL ns)"
proof (induction ns rule: forest_induct)
  case Nil then show ?case by simp
next
  case (Node j e ks ns)
  from Node.prems consider "x = Node j e ks" | "x \<in> set (nodesL ks)" | "x \<in> set (nodesL ns)"
    by (auto simp: nodesL_Cons nodes_Node simp del: nodes.simps)
  then show ?case
  proof cases
    case 1 then show ?thesis by (auto simp: nodesL_Cons)
  next
    case 2
    then have "set (nodes x) \<subseteq> set (nodesL ks)" by (rule Node.IH(1))
    then show ?thesis by (auto simp: nodesL_Cons nodes_Node simp del: nodes.simps)
  next
    case 3
    then have "set (nodes x) \<subseteq> set (nodesL ns)" by (rule Node.IH(2))
    then show ?thesis by (auto simp: nodesL_Cons)
  qed
qed

lemma nodes_self: "x \<in> set (nodes x)"
  by (cases x) simp

lemma nids_sub: "x \<in> set (nodesL ns) \<Longrightarrow> set (nids [x]) \<subseteq> set (nids ns)"
  using nodes_sub[of x ns] by (auto simp: nids_def nodesL_Cons)

lemma distinct_nids_sub:
  "distinct (nids ns) \<Longrightarrow> x \<in> set (nodesL ns) \<Longrightarrow> distinct (nids [x])"
proof (induction ns rule: forest_induct)
  case Nil then show ?case by simp
next
  case (Node j e ks ns)
  note d = distinct_nids_ConsD[OF Node.prems(1)]
  from Node.prems(2) consider "x = Node j e ks" | "x \<in> set (nodesL ks)" | "x \<in> set (nodesL ns)"
    by (auto simp: nodesL_Cons nodes_Node simp del: nodes.simps)
  then show ?case
  proof cases
    case 1
    then show ?thesis using Node.prems(1) by (simp add: nids_Cons[of _ ns] nids_single del: nodes.simps)
  next
    case 2 then show ?thesis using Node.IH(1) d(1) by simp
  next
    case 3 then show ?thesis using Node.IH(2) d(2) by simp
  qed
qed

lemma detach_absent: "i \<notin> set (nids (childNodes n)) \<Longrightarrow> detach i n = n"
  by (cases n) (simp add: detach_Node detachL_absent del: detach.simps)

lemma nid_detach [simp]: "nid (detach i n) = nid n"
  by (cases n) simp

lemma elem_detach [simp]: "elem (detach i n) = elem n"
  by (cases n) simp

lemma childNodes_detach: "childNodes (detach i n) = detachL i (childNodes n)"
  by (cases n) (simp add: detachL_def)

lemma nids_childNodes: "map nid (nodes n) = nid n # nids (childNodes n)"
  by (cases n) (simp add: nodes_Node_nids del: nodes.simps)

text \<open>Every node survives a removal: in what is left, or in the subtree taken out.\<close>

lemma detach_member:
  "distinct (nids ns) \<Longrightarrow> x \<in> set (nodesL ns) \<Longrightarrow>
   detach i x \<in> set (nodesL (detachL i ns)) \<or>
   (\<exists>r. subtreeIn i ns = Some r \<and> x \<in> set (nodes r))"
proof (induction ns rule: forest_induct)
  case Nil then show ?case by simp
next
  case (Node j e ks ns)
  note d = distinct_nids_ConsD[OF Node.prems(1)]
  from Node.prems(2) consider "x = Node j e ks" | "x \<in> set (nodesL ks)" | "x \<in> set (nodesL ns)"
    by (auto simp: nodesL_Cons nodes_Node simp del: nodes.simps)
  then show ?case
  proof cases
    case 1
    show ?thesis
    proof (cases "j = i")
      case True
      then show ?thesis using 1 by (simp add: subtreeIn_Cons del: nodes.simps) (simp add: nodes_self)
    next
      case False
      then show ?thesis
        using 1 by (simp add: detachL_Cons nodesL_Cons detach_Node nodes_Node del: detach.simps nodes.simps)
    qed
  next
    case 2
    from Node.IH(1)[OF d(1) 2] show ?thesis
    proof
      assume a: "detach i x \<in> set (nodesL (detachL i ks))"
      show ?thesis
      proof (cases "j = i")
        case True
        have "x \<in> set (nodes (Node j e ks))" using 2 by (simp add: nodes_Node del: nodes.simps)
        then show ?thesis using True by (auto simp: subtreeIn_Cons simp del: nodes.simps)
      next
        case False
        then show ?thesis
          using a by (simp add: detachL_Cons nodesL_Cons detach_Node nodes_Node
                del: detach.simps nodes.simps)
      qed
    next
      assume "\<exists>r. subtreeIn i ks = Some r \<and> x \<in> set (nodes r)"
      then obtain r where r: "subtreeIn i ks = Some r" "x \<in> set (nodes r)" by blast
      show ?thesis
      proof (cases "j = i")
        case True
        have "x \<in> set (nodes (Node j e ks))" using 2 by (simp add: nodes_Node del: nodes.simps)
        then show ?thesis using True by (auto simp: subtreeIn_Cons simp del: nodes.simps)
      next
        case False
        then show ?thesis using r by (auto simp: subtreeIn_Cons simp del: nodes.simps)
      qed
    qed
  next
    case 3
    have ji: "i \<notin> set (nids ns) \<Longrightarrow> subtreeIn i ns = None" by (simp add: subtreeIn_None)
    from Node.IH(2)[OF d(2) 3] show ?thesis
    proof
      assume a: "detach i x \<in> set (nodesL (detachL i ns))"
      then show ?thesis by (auto simp: detachL_Cons nodesL_Cons)
    next
      assume "\<exists>r. subtreeIn i ns = Some r \<and> x \<in> set (nodes r)"
      then obtain r where r: "subtreeIn i ns = Some r" "x \<in> set (nodes r)" by blast
      then have "i \<in> set (nids ns)" using subtreeIn_None[of i ns] by auto
      then have "j \<noteq> i" "i \<notin> set (nids ks)" using d by auto
      then have "subtreeIn i (Node j e ks # ns) = Some r"
        using r(1) by (simp add: subtreeIn_Cons subtreeIn_None[THEN iffD2])
      then show ?thesis using r(2) by blast
    qed
  qed
qed

lemma in_removed_detach_id:
  assumes d: "distinct (nids ns)" and r: "subtreeIn i ns = Some r" and x: "x \<in> set (nodes r)"
  shows "detach i x = x"
proof (rule detach_absent)
  have rn: "r \<in> set (nodesL ns)" "nid r = i" using subtreeIn_Some_nid[OF r] by auto
  have dr: "distinct (nids [r])" by (rule distinct_nids_sub[OF d rn(1)])
  then have i: "i \<notin> set (nids (childNodes r))"
    using rn(2) by (simp add: nids_single nids_childNodes)
  show "i \<notin> set (nids (childNodes x))"
  proof (cases "x = r")
    case True then show ?thesis using i by simp
  next
    case False
    then have "x \<in> set (nodesL (childNodes r))"
      using x by (cases r) (simp add: nodes_Node del: nodes.simps)
    then have "set (nids [x]) \<subseteq> set (nids (childNodes r))" by (rule nids_sub)
    then show ?thesis using i by (auto simp: nids_single nids_childNodes)
  qed
qed

lemma find_unique:
  "distinct (map f xs) \<Longrightarrow> x \<in> set xs \<Longrightarrow> f x = a \<Longrightarrow> find (\<lambda>y. f y = a) xs = Some x"
  using find_distinct[of f xs x] by auto

lemma subtreeIn_unique:
  "distinct (nids ns) \<Longrightarrow> x \<in> set (nodesL ns) \<Longrightarrow> nid x = s \<Longrightarrow> subtreeIn s ns = Some x"
  unfolding subtreeIn_def nids_def by (rule find_unique)

lemma mset_nids_roots:
  "mset (nids ns) = mset (map nid ns) + mset (nids (concat (map childNodes ns)))"
proof (induction ns)
  case Nil show ?case by simp
next
  case (Cons n ns)
  show ?case
    by (simp add: nids_Cons[of n ns] nids_childNodes nids_append Cons.IH del: nodes.simps)
qed

lemma roots_not_descendants:
  assumes d: "distinct (nids ns)" and t: "t \<in> set ns" and x: "x \<in> set (nodesL ns)"
  shows "nid t \<notin> set (nids (childNodes x))"
proof
  assume c: "nid t \<in> set (nids (childNodes x))"
  have "distinct (map nid ns @ nids (concat (map childNodes ns)))"
    using d mset_nids_roots[of ns] by (metis mset_append mset_eq_imp_distinct_iff)
  then have dis: "set (map nid ns) \<inter> set (nids (concat (map childNodes ns))) = {}"
    by simp
  from x obtain t' where t': "t' \<in> set ns" "x \<in> set (nodes t')"
    by (auto simp: nodesL_def)
  have "set (nodesL (childNodes x)) \<subseteq> set (nodesL (childNodes t'))"
  proof (cases "x = t'")
    case True then show ?thesis by simp
  next
    case False
    then have "x \<in> set (nodesL (childNodes t'))"
      using t'(2) by (cases t') (simp add: nodes_Node del: nodes.simps)
    then have "set (nodes x) \<subseteq> set (nodesL (childNodes t'))" by (rule nodes_sub)
    then show ?thesis by (cases x) (auto simp: nodes_Node simp del: nodes.simps)
  qed
  then have "set (nids (childNodes x)) \<subseteq> set (nids (childNodes t'))"
    by (auto simp: nids_def)
  moreover have "set (nids (childNodes t')) \<subseteq> set (nids (concat (map childNodes ns)))"
    using t'(1) by (auto simp: nids_def nodesL_def)
  ultimately have "nid t \<in> set (nids (concat (map childNodes ns)))" using c by auto
  moreover have "nid t \<in> set (map nid ns)" using t by simp
  ultimately show False using dis by auto
qed

lemma lookupNode_removeNode:
  assumes wf: "wf_dom d"
  shows "lookupNode s (removeNode i d) = map_option (detach i) (lookupNode s d)"
proof -
  let ?ns = "document d @ detached d"
  have d: "distinct (nids ?ns)" using wf by (simp add: wf_dom_nids)
  have mem: "x \<in> set (nodesL ?ns)" if "lookupNode s d = Some x" for x
    using that subtreeIn_Some_nid by (auto simp: lookupNode_subtreeIn)
  show ?thesis
  proof (cases "lookupNode i d")
    case None
    then have i: "i \<notin> set (nids ?ns)"
      by (simp add: lookupNode_subtreeIn subtreeIn_None)
    have "detach i x = x" if "lookupNode s d = Some x" for x
    proof (rule detach_absent)
      have "set (nids [x]) \<subseteq> set (nids ?ns)" by (rule nids_sub[OF mem[OF that]])
      then show "i \<notin> set (nids (childNodes x))" using i by (auto simp: nids_single nids_childNodes)
    qed
    then show ?thesis using None by (cases "lookupNode s d") (simp_all add: removeNode_def)
  next
    case (Some r)
    have r: "subtreeIn i ?ns = Some r" using Some by (simp add: lookupNode_subtreeIn)
    show ?thesis
    proof (cases "i \<in> nid ` set (detached d)")
      case True
      then obtain t where t: "t \<in> set ?ns" "nid t = i" by auto
      have "detach i x = x" if "lookupNode s d = Some x" for x
        by (rule detach_absent)
           (use roots_not_descendants[OF d t(1) mem[OF that]] t(2) in simp)
      then show ?thesis using Some True by (cases "lookupNode s d") (simp_all add: removeNode_detachL)
    next
      case False
      let ?ns' = "detachL i ?ns @ [r]"
      have rd: "removeNode i d = \<lparr>document = detachL i (document d),
                                    detached = detachL i (detached d) @ [r]\<rparr>"
        using Some False by (simp add: removeNode_detachL)
      have l': "lookupNode s (removeNode i d) = subtreeIn s ?ns'"
        by (simp add: rd lookupNode_subtreeIn detachL_append)
      have "wf_dom (removeNode i d)" by (rule wf_dom_removeNode[OF wf])
      then have d': "distinct (nids ?ns')"
        by (simp add: rd wf_dom_nids detachL_append)
      have m: "mset (nids ?ns') = mset (nids ?ns)"
      proof -
        have "mset (flat (detachL i ?ns)) + mset (flat [r]) = mset (flat ?ns)"
          using mset_flat_detachL[OF d, of i] r by simp
        then have "mset (flat ?ns') = mset (flat ?ns)" by (simp add: flat_append)
        then show ?thesis unfolding nids_flat by (metis mset_map)
      qed
      show ?thesis
      proof (cases "lookupNode s d")
        case None
        then have "s \<notin> set (nids ?ns)" by (simp add: lookupNode_subtreeIn subtreeIn_None)
        then have "s \<notin> set (nids ?ns')" using m by (metis set_mset_mset)
        then show ?thesis using None by (simp add: l' subtreeIn_None)
      next
        case x: (Some x)
        have xs: "nid x = s" using x subtreeIn_Some_nid by (auto simp: lookupNode_subtreeIn)
        have "detach i x \<in> set (nodesL ?ns')"
          using detach_member[OF d mem[OF x], of i]
        proof
          assume "detach i x \<in> set (nodesL (detachL i ?ns))"
          then show ?thesis by (simp add: nodesL_append)
        next
          assume "\<exists>r. subtreeIn i ?ns = Some r \<and> x \<in> set (nodes r)"
          then have xr: "x \<in> set (nodes r)" using r by auto
          then have "detach i x = x" by (rule in_removed_detach_id[OF d r])
          then show ?thesis using xr by (simp add: nodesL_append nodesL_Cons)
        qed
        then have "subtreeIn s ?ns' = Some (detach i x)"
          by (rule subtreeIn_unique[OF d']) (simp add: xs)
        then show ?thesis using x by (simp add: l')
      qed
    qed
  qed
qed

lemma allNodes_nodesL: "allNodes d = nodesL (document d @ detached d)"
  by (simp add: allNodes_def nodesL_append)

lemma lookupNode_Some_mem: "lookupNode s d = Some x \<Longrightarrow> x \<in> set (allNodes d) \<and> nid x = s"
  using subtreeIn_Some_nid[of s "document d @ detached d" x]
  by (auto simp: lookupNode_subtreeIn allNodes_nodesL)

lemma child_has_parent:
  "y \<in> set (nodesL ks) \<Longrightarrow> y \<in> set ks \<or> (\<exists>q \<in> set (nodesL ks). y \<in> set (childNodes q))"
proof (induction ks rule: forest_induct)
  case Nil then show ?case by simp
next
  case (Node j e ks ns)
  from Node.prems consider "y = Node j e ks" | "y \<in> set (nodesL ks)" | "y \<in> set (nodesL ns)"
    by (auto simp: nodesL_Cons nodes_Node simp del: nodes.simps)
  then show ?case
  proof cases
    case 1 then show ?thesis by simp
  next
    case 2
    from Node.IH(1)[OF 2] show ?thesis
    proof
      assume "y \<in> set ks"
      then have "y \<in> set (childNodes (Node j e ks))" by simp
      moreover have "Node j e ks \<in> set (nodesL (Node j e ks # ns))"
        by (simp add: nodesL_Cons nodes_Node del: nodes.simps)
      ultimately show ?thesis by blast
    next
      assume "\<exists>q \<in> set (nodesL ks). y \<in> set (childNodes q)"
      then show ?thesis by (auto simp: nodesL_Cons nodes_Node simp del: nodes.simps)
    qed
  next
    case 3
    from Node.IH(2)[OF 3] show ?thesis by (auto simp: nodesL_Cons)
  qed
qed

lemma parentElement_exists:
  assumes l: "lookupNode s d = Some n" and c: "c \<in> set (nids (childNodes n))"
  shows "parentElement c d \<noteq> None"
proof -
  from c obtain y where y: "y \<in> set (nodesL (childNodes n))" "nid y = c"
    by (auto simp: nids_def)
  have n: "n \<in> set (allNodes d)" using lookupNode_Some_mem[OF l] by simp
  have sub: "set (nodes n) \<subseteq> set (allNodes d)"
    using nodes_sub[of n "document d @ detached d"] n by (simp add: allNodes_nodesL)
  have "\<exists>q \<in> set (nodes n). y \<in> set (childNodes q)"
    using child_has_parent[OF y(1)]
  proof
    assume "y \<in> set (childNodes n)"
    then show ?thesis using nodes_self[of n] by blast
  next
    assume "\<exists>q \<in> set (nodesL (childNodes n)). y \<in> set (childNodes q)"
    then show ?thesis by (cases n) (auto simp: nodes_Node simp del: nodes.simps)
  qed
  then obtain q where "q \<in> set (allNodes d)" "c \<in> nid ` set (childNodes q)"
    using sub y(2) by auto
  then show ?thesis
    by (auto simp: parentElement_def find_None_iff)
qed

section \<open>Parents and traces\<close>

lemma edgesL_Nil [simp]: "edgesL [] = []"
  by (simp add: edgesL_def)

lemma edgesL_Cons:
  "edgesL (Node j e ks # ns) = map (\<lambda>k. (nid k, j)) ks @ edgesL ks @ edgesL ns"
  by (simp add: edgesL_def nodesL_Cons nodes_Node del: nodes.simps)

lemma mset_edges:
  "mset (map fst (edgesL ns)) = mset (nids (concat (map childNodes ns)))"
proof (induction ns rule: forest_induct)
  case Nil show ?case by simp
next
  case (Node j e ks ns)
  have "mset (map fst (edgesL (Node j e ks # ns))) =
        mset (map nid ks) + mset (nids (concat (map childNodes ks))) +
        mset (nids (concat (map childNodes ns)))"
    using Node.IH by (simp add: edgesL_Cons comp_def)
  also have "mset (map nid ks) + mset (nids (concat (map childNodes ks))) = mset (nids ks)"
    by (simp add: mset_nids_roots[of ks])
  finally show ?case by (simp add: nids_append)
qed

lemma distinct_edges:
  assumes "distinct (nids ns)"
  shows "distinct (map fst (edgesL ns))"
proof -
  have "distinct (map nid ns @ nids (concat (map childNodes ns)))"
    using assms mset_nids_roots[of ns] by (metis mset_append mset_eq_imp_distinct_iff)
  then have "distinct (nids (concat (map childNodes ns)))" by simp
  then show ?thesis using mset_edges[of ns] by (metis mset_eq_imp_distinct_iff)
qed

lemma edge_mem:
  "q \<in> set (nodesL ns) \<Longrightarrow> k \<in> set (childNodes q) \<Longrightarrow> (nid k, nid q) \<in> set (edgesL ns)"
  by (auto simp: edgesL_def)

lemma parent_unique:
  assumes d: "distinct (nids ns)"
    and q: "q \<in> set (nodesL ns)" "k \<in> set (childNodes q)"
    and q': "q' \<in> set (nodesL ns)" "k' \<in> set (childNodes q')"
    and e: "nid k = nid k'"
  shows "q = q'"
proof -
  have "(nid k, nid q) \<in> set (edgesL ns)" "(nid k, nid q') \<in> set (edgesL ns)"
    using edge_mem[OF q] edge_mem[OF q'] e by simp_all
  then have "nid q = nid q'"
    using distinct_edges[OF d] by (rule eq_key_imp_eq_value[rotated])
  then have "subtreeIn (nid q) ns = Some q'" using subtreeIn_unique[OF d q'(1)] by simp
  moreover have "subtreeIn (nid q) ns = Some q" using subtreeIn_unique[OF d q(1)] by simp
  ultimately show ?thesis by simp
qed

lemma parentElement_Some:
  "parentElement c d = Some q \<Longrightarrow> q \<in> set (allNodes d) \<and> c \<in> nid ` set (childNodes q)"
  unfolding parentElement_def by (auto dest: find_Some_iff[THEN iffD1] simp: in_set_conv_nth)

lemma parentElement_unique:
  assumes wf: "wf_dom d" and q: "q \<in> set (allNodes d)" and k: "k \<in> set (childNodes q)"
  shows "parentElement (nid k) d = Some q"
proof -
  have "parentElement (nid k) d \<noteq> None"
    using q k by (auto simp: parentElement_def find_None_iff)
  then obtain q' where q': "parentElement (nid k) d = Some q'" by auto
  then obtain k' where k': "q' \<in> set (allNodes d)" "k' \<in> set (childNodes q')" "nid k' = nid k"
    using parentElement_Some[OF q'] by auto
  have "q = q'"
    using parent_unique[of "document d @ detached d" q k q' k'] wf q k k'
    by (simp add: wf_dom_nids allNodes_nodesL)
  then show ?thesis using q' by simp
qed

text \<open>Nodes of what is left after a removal.\<close>

lemma detachL_nodes:
  "y' \<in> set (nodesL (detachL i ns)) \<Longrightarrow> \<exists>y \<in> set (nodesL ns). y' = detach i y"
proof (induction ns rule: forest_induct)
  case Nil then show ?case by simp
next
  case (Node j e ks ns)
  show ?case
  proof (cases "j = i")
    case True
    then have "y' \<in> set (nodesL (detachL i ns))" using Node.prems by (simp add: detachL_Cons)
    then show ?thesis using Node.IH(2) by (auto simp: nodesL_Cons)
  next
    case False
    then have "y' = detach i (Node j e ks) \<or> y' \<in> set (nodesL (detachL i ks)) \<or>
               y' \<in> set (nodesL (detachL i ns))"
      using Node.prems
      by (auto simp: detachL_Cons nodesL_Cons detach_Node nodes_Node simp del: detach.simps nodes.simps)
    then show ?thesis
      using Node.IH by (fastforce simp: nodesL_Cons nodes_Node simp del: detach.simps nodes.simps)
  qed
qed

lemma mset_tr_detachL:
  assumes "distinct (nids ns)"
  shows "mset (tr Q (detachL i ns)) +
           (case subtreeIn i ns of None \<Rightarrow> {#} | Some x \<Rightarrow> mset (tr Q [x])) = mset (tr Q ns)"
proof -
  have "image_mset fst (filter_mset (\<lambda>x. Q (snd x)) (mset (flat (detachL i ns)) +
          (case subtreeIn i ns of None \<Rightarrow> {#} | Some x \<Rightarrow> mset (flat [x])))) =
        image_mset fst (filter_mset (\<lambda>x. Q (snd x)) (mset (flat ns)))"
    by (simp only: mset_flat_detachL[OF assms])
  then show ?thesis
    by (cases "subtreeIn i ns") (simp_all add: tr_def)
qed

lemma mset_tr_editChildren:
  assumes F: "splices new F" and d: "distinct (nids ns)"
  shows "mset (tr Q (map (editChildren p F) ns)) =
         mset (tr Q ns) + (if p \<in> set (nids ns) then mset (tr Q [new]) else {#})"
proof -
  have "image_mset fst (filter_mset (\<lambda>x. Q (snd x)) (mset (flat (map (editChildren p F) ns)))) =
        image_mset fst (filter_mset (\<lambda>x. Q (snd x)) (mset (flat ns) +
           (if p \<in> set (nids ns) then mset (flat [new]) else {#})))"
    by (simp only: mset_flat_editChildren[OF F d])
  then show ?thesis by (simp add: tr_def)
qed

lemma childNodes_editChildren:
  "childNodes (editChildren p F n) =
     (if nid n = p then F (childNodes n) else map (editChildren p F) (childNodes n))"
  by (cases n) simp

lemma nid_editChildren [simp]: "nid (editChildren p F n) = nid n"
  by (cases n) simp

lemma elem_editChildren [simp]: "elem (editChildren p F n) = elem n"
  by (cases n) simp

lemma tr_childNodes_editChildren:
  assumes F: "splices new F" and n: "tr Q [new] = []"
  shows "tr Q (childNodes (editChildren p F x)) = tr Q (childNodes x)"
proof -
  obtain m where m: "F (childNodes x) = take m (childNodes x) @ new # drop m (childNodes x)"
    using F unfolding splices_def by blast
  show ?thesis
    by (simp add: childNodes_editChildren m tr_splice[OF n] tr_editChildren[OF F n])
qed

lemma secTr_editDom:
  assumes F: "splices new F" and s: "s \<notin> set (nids [new])" and wf: "wf_dom d"
    and n: "tr Q [new] = []"
  shows "secTr Q s (editDom p F d) = secTr Q s d"
  by (simp add: secTr_def lookupNode_editDom[OF F s wf] tr_childNodes_editChildren[OF F n]
        split: option.splits)

lemma secTr_mapDom:
  assumes "\<And>j e. Q (g j e) = Q e"
  shows "secTr Q s (mapDom g d) = secTr Q s d"
  by (simp add: secTr_def lookupNode_mapDom childNodes_mapElems tr_mapElems[of Q g, OF assms]
        split: option.splits)

lemma tr_single_child: "tr Q [n] = (if Q (elem n) then [nid n] else []) @ tr Q (childNodes n)"
  by (cases n) (simp add: tr_single)

lemma nodeTr_mapDom:
  assumes "\<And>j e. Q (g j e) = Q e"
  shows "nodeTr Q s (mapDom g d) = nodeTr Q s d"
proof -
  have "tr Q [mapElems g n] = tr Q [n]" for n
    using tr_mapElems[of Q g "[n]", OF assms] by simp
  then show ?thesis
    by (simp add: nodeTr_def lookupNode_mapDom split: option.splits)
qed

lemma nodeTr_editDom:
  assumes F: "splices new F" and s: "s \<notin> set (nids [new])" and wf: "wf_dom d"
    and n: "tr Q [new] = []"
  shows "nodeTr Q s (editDom p F d) = nodeTr Q s d"
proof -
  have "tr Q [editChildren p F x] = tr Q [x]" for x
    using tr_editChildren[OF F n, of p "[x]"] by simp
  then show ?thesis
    by (simp add: nodeTr_def lookupNode_editDom[OF F s wf] split: option.splits)
qed

lemma nodeTr_editDom_outside:
  assumes F: "splices new F" and s: "s \<notin> set (nids [new])" and wf: "wf_dom d"
    and p: "\<And>x. lookupNode s d = Some x \<Longrightarrow> p \<notin> set (nids [x])"
  shows "nodeTr Q s (editDom p F d) = nodeTr Q s d"
  by (auto simp: nodeTr_def lookupNode_editDom[OF F s wf] editChildren_absent[OF p]
        split: option.splits)

lemma secTr_editDom_outside:
  assumes F: "splices new F" and s: "s \<notin> set (nids [new])" and wf: "wf_dom d"
    and p: "\<And>x. lookupNode s d = Some x \<Longrightarrow> p \<notin> set (nids [x])"
  shows "secTr Q s (editDom p F d) = secTr Q s d"
  by (auto simp: secTr_def lookupNode_editDom[OF F s wf] editChildren_absent[OF p]
        split: option.splits)

section \<open>Classification of the main list\<close>

lemma isSleeperChar_nodes:
  "isSleeperChar charEl \<longleftrightarrow>
   (\<exists>x \<in> set (nodes charEl).
      asleepClass \<in> set (classList (elem x)) \<or> inactiveClass \<in> set (classList (elem x)))"
proof -
  let ?ss = "[Sel [ByClass asleepClass], Sel [ByClass inactiveClass]]"
  let ?m = "\<lambda>x. asleepClass \<in> set (classList (elem x)) \<or> inactiveClass \<in> set (classList (elem x))"
  have sel: "list_all isSel ?ss" by (simp add: isSel_def)
  have m: "matchesAny ?ss [] (elem x) = ?m x" for x
    by (simp add: matchesAny_def matchesCompound_def)
  have "querySelector ?ss [] charEl \<noteq> None \<longleftrightarrow>
        filter ?m (nodesL (childNodes charEl)) \<noteq> []"
    unfolding querySelector_def querySelectorAll_Sel_filter[OF sel] m
    by (simp split: list.splits)
  then have q: "querySelector ?ss [] charEl \<noteq> None \<longleftrightarrow>
           (\<exists>x \<in> set (nodesL (childNodes charEl)). ?m x)"
    by (simp only: filter_empty_conv) blast
  show ?thesis
    unfolding isSleeperChar_def q nodes_eq_self_desc[of charEl] by auto
qed

lemma isSleeperChar_tr: "isSleeperChar n \<longleftrightarrow> tr levelMarked [n] \<noteq> []"
  by (auto simp: isSleeperChar_nodes tr_nodes nodesL_Cons levelMarked_def filter_empty_conv)

lemma sleeperAt_nodeTr: "sleeperAt d c \<longleftrightarrow> nodeTr levelMarked c d \<noteq> []"
  by (simp add: sleeperAt_def nodeTr_def isSleeperChar_tr split: option.splits)

lemma levelMarked_touchesOnly:
  assumes "touchesOnly hiddenClass g"
  shows "levelMarked (g j e) = levelMarked e"
proof -
  have s: "sameBut hiddenClass e (g j e)" using assms by (simp add: touchesOnly_def)
  have "asleepClass \<noteq> hiddenClass" "inactiveClass \<noteq> hiddenClass"
    by (simp_all add: asleepClass_def inactiveClass_def hiddenClass_def)
  then show ?thesis
    using sameBut_fields(6)[OF s] by (simp add: levelMarked_def)
qed

lemma hasClass_touchesOnly:
  assumes "touchesOnly hiddenClass g" "c \<noteq> hiddenClass"
  shows "hasClass c (g j e) = hasClass c e"
proof -
  have s: "sameBut hiddenClass e (g j e)" using assms by (simp add: touchesOnly_def)
  show ?thesis using sameBut_fields(6)[OF s assms(2)] by (simp add: hasClass_def)
qed

lemma sleeperAt_mapDom:
  assumes "touchesOnly hiddenClass g"
  shows "sleeperAt (mapDom g d) c = sleeperAt d c"
  by (simp add: sleeperAt_nodeTr nodeTr_mapDom[of levelMarked g, OF levelMarked_touchesOnly[OF assms]])

lemma classifyChars_eq:
  "classifyChars chars sl aw d =
     (sl @ filter (sleeperAt d) chars, aw @ filter (\<lambda>c. \<not> sleeperAt d c) chars,
      mapDom (\<lambda>j e. if j \<in> set (filter (sleeperAt d) chars)
                     then classListAdd hiddenClass e else e) d)"
proof (induction chars arbitrary: sl aw d)
  case Nil
  show ?case by (simp add: mapDom_id)
next
  case (Cons c chars)
  let ?d' = "updateAt (classListAdd hiddenClass) c d"
  have d': "?d' = mapDom (\<lambda>j e. if j = c then classListAdd hiddenClass e else e) d"
    by (rule updateAt_mapDom)
  have t: "touchesOnly hiddenClass (\<lambda>j e. if j = c then classListAdd hiddenClass e else e)"
    by (rule touchesOnly_ifs)
  have s: "sleeperAt ?d' = sleeperAt d"
    unfolding d' using sleeperAt_mapDom[OF t] by auto
  show ?case
  proof (cases "sleeperAt d c")
    case True
    then obtain n where n: "lookupNode c d = Some n" "isSleeperChar n"
      by (auto simp: sleeperAt_def split: option.splits)
    have "classifyChars (c # chars) sl aw d = classifyChars chars (sl @ [c]) aw ?d'"
      using n by simp
    also have "\<dots> = ((sl @ [c]) @ filter (sleeperAt d) chars, aw @ filter (\<lambda>c. \<not> sleeperAt d c) chars,
      mapDom (\<lambda>j e. if j \<in> set (filter (sleeperAt d) chars)
                     then classListAdd hiddenClass e else e) ?d')"
      unfolding Cons.IH s ..
    also have "mapDom (\<lambda>j e. if j \<in> set (filter (sleeperAt d) chars)
                     then classListAdd hiddenClass e else e) ?d' =
        mapDom (\<lambda>j e. if j \<in> set (filter (sleeperAt d) (c # chars))
                     then classListAdd hiddenClass e else e) d"
      unfolding d' mapDom_comp
      by (rule mapDom_cong) (use True in \<open>auto simp: classListAdd_idem\<close>)
    finally show ?thesis using True by simp
  next
    case False
    then have "classifyChars (c # chars) sl aw d = classifyChars chars sl (aw @ [c]) d"
      by (auto simp: sleeperAt_def split: option.splits)
    then show ?thesis using False by (simp add: Cons.IH)
  qed
qed

lemma matchesAny_class [simp]: "matchesAny [Sel [ByClass c]] ancs e = hasClass c e"
  by (simp add: matchesAny_def matchesCompound_def hasClass_def)

lemma elQuerySelectorAll_secTr:
  assumes "list_all isSel ss"
  shows "map nid (elQuerySelectorAll ss s d) = secTr (matchesAny ss []) s d"
  by (simp add: elQuerySelectorAll_def secTr_def querySelectorAll_Sel_filter[OF assms] tr_nodes
        split: option.splits)

lemma charEntries_secTr: "map nid (charEntries s d) = secTr (hasClass charClass) s d"
  unfolding charEntries_def
  using elQuerySelectorAll_secTr[of "[Sel [ByClass charClass]]" s d]
  by (simp add: isSel_def matchesAny_class[abs_def])

lemma placeholders_secTr: "map nid (placeholders s d) = secTr (hasClass noAwakeClass) s d"
  unfolding placeholders_def
  using elQuerySelectorAll_secTr[of "[Sel [ByClass noAwakeClass]]" s d]
  by (simp add: isSel_def matchesAny_class[abs_def])

lemma resetChars_mapDom:
  "resetChars chars d =
   mapDom (\<lambda>j e. if j \<in> set chars then classListRemove hiddenClass e else e) d"
  unfolding resetChars_def by (rule fold_updateAt) (rule classListRemove_idem)

lemma insertBefore_edit:
  "insertBefore p new r d = Inr d' \<Longrightarrow>
   d' = editDom p (\<lambda>ks. takeWhile (\<lambda>k. nid k \<noteq> r) ks @ new # dropWhile (\<lambda>k. nid k \<noteq> r) ks) d"
  by (auto simp: insertBefore_def editDom_def insertBeforeIn_edit[abs_def]
        split: option.splits if_splits)

section \<open>Characters and created nodes\<close>

lemma charStatus_Nil [simp]: "charStatus [] = []"
  by (simp add: charStatus_def)

lemma charStatus_append: "charStatus (ks @ ns) = charStatus ks @ charStatus ns"
  by (simp add: charStatus_def nodesL_append)

lemma charStatus_Node:
  "charStatus (Node j e ks # ns) =
     (if hasClass charClass e then [(j, levelMarked e \<or> tr levelMarked ks \<noteq> [])] else [])
     @ charStatus ks @ charStatus ns"
  by (simp add: charStatus_def nodesL_Cons[of _ ns] nodes_Node isSleeperChar_tr tr_single_child
        del: nodes.simps)

lemma charStatus_fst: "map fst (charStatus ks) = tr (hasClass charClass) ks"
  by (simp add: charStatus_def tr_nodes comp_def)

lemma charStatus_mapElems:
  assumes g: "touchesOnly hiddenClass g"
  shows "charStatus (map (mapElems g) ks) = charStatus ks"
proof (induction ks rule: forest_induct)
  case Nil show ?case by simp
next
  case (Node j e ks ns)
  have c: "hasClass charClass (g j e) = hasClass charClass e"
    by (rule hasClass_touchesOnly[OF g]) (simp add: charClass_def hiddenClass_def)
  have l: "tr levelMarked (map (mapElems g) ks) = tr levelMarked ks"
    by (rule tr_mapElems) (rule levelMarked_touchesOnly[OF g])
  show ?case
    using Node by (simp add: charStatus_Node c l levelMarked_touchesOnly[OF g])
qed

lemma charStatus_splice:
  "charStatus (take m ks @ new # drop m ks) = charStatus (take m ks) @ charStatus [new] @ charStatus (drop m ks)"
  using charStatus_append[of "take m ks" "new # drop m ks"] charStatus_append[of "[new]" "drop m ks"]
  by simp

lemma charStatus_tr_Nil:
  "tr (hasClass charClass) ks = [] \<Longrightarrow> charStatus ks = []"
  using charStatus_fst[of ks] by simp

lemma charStatus_editChildren:
  assumes F: "splices new F" and c: "tr (hasClass charClass) [new] = []"
    and l: "tr levelMarked [new] = []"
  shows "charStatus (map (editChildren p F) ks) = charStatus ks"
proof (induction ks rule: forest_induct)
  case Nil show ?case by simp
next
  case (Node j e ks ns)
  have t: "tr levelMarked (map (editChildren p F) ks) = tr levelMarked ks"
    by (rule tr_editChildren[OF F l])
  obtain m where m: "F ks = take m ks @ new # drop m ks" using F by (auto simp: splices_def)
  have t': "tr levelMarked (F ks) = tr levelMarked ks"
    unfolding m by (simp add: tr_splice l)
  have "charStatus (F ks) = charStatus (take m ks) @ charStatus (drop m ks)"
    unfolding m charStatus_splice by (simp add: charStatus_tr_Nil[OF c])
  also have "\<dots> = charStatus ks"
    using charStatus_append[of "take m ks" "drop m ks"] by simp
  finally have s: "charStatus (F ks) = charStatus ks" .
  show ?case
    using Node by (simp add: charStatus_Node t t' s)
qed

lemma charStatus_detachL:
  assumes "\<And>x. x \<in> set (nodesL ks) \<Longrightarrow> nid x = i \<Longrightarrow>
               tr (hasClass charClass) [x] = [] \<and> tr levelMarked [x] = []"
  shows "charStatus (detachL i ks) = charStatus ks"
  using assms
proof (induction ks rule: forest_induct)
  case Nil show ?case by (simp add: detachL_Nil)
next
  case (Node j e ks ns)
  have in_ks: "\<And>x. x \<in> set (nodesL ks) \<Longrightarrow> x \<in> set (nodesL (Node j e ks # ns))"
    and in_ns: "\<And>x. x \<in> set (nodesL ns) \<Longrightarrow> x \<in> set (nodesL (Node j e ks # ns))"
    by (simp_all add: nodesL_Cons[of _ ns] nodes_Node del: nodes.simps)
  have ks: "charStatus (detachL i ks) = charStatus ks"
    by (rule Node.IH(1)) (use Node.prems in_ks in blast)
  have ns: "charStatus (detachL i ns) = charStatus ns"
    by (rule Node.IH(2)) (use Node.prems in_ns in blast)
  have trk: "tr levelMarked (detachL i ks) = tr levelMarked ks"
    by (rule tr_detachL) (use Node.prems in_ks in blast)
  show ?case
  proof (cases "j = i")
    case True
    have self: "Node j e ks \<in> set (nodesL (Node j e ks # ns))"
      by (simp add: nodesL_Cons[of _ ns] nodes_Node del: nodes.simps)
    have z: "tr (hasClass charClass) [Node j e ks] = []"
      using Node.prems[OF self] True by simp
    have "charStatus [Node j e ks] = []" by (rule charStatus_tr_Nil[OF z])
    then have "charStatus (Node j e ks # ns) = charStatus ns"
      using charStatus_append[of "[Node j e ks]" ns] by simp
    moreover have "detachL i (Node j e ks # ns) = detachL i ns"
      using True by (simp add: detachL_def)
    ultimately show ?thesis using ns by simp
  next
    case False
    then have "detachL i (Node j e ks # ns) = Node j e (detachL i ks) # detachL i ns"
      by (simp add: detachL_def)
    then show ?thesis by (simp add: charStatus_Node ks ns trk)
  qed
qed

lemma nodes_childNodes: "nodes n = n # nodesL (childNodes n)"
  by (cases n) (simp add: nodesL_def)

lemma descendants_allNodes:
  assumes x: "lookupNode s d = Some x" and y: "y \<in> set (nodesL (childNodes x))"
  shows "y \<in> set (allNodes d)"
proof -
  have xin: "x \<in> set (nodesL (document d @ detached d))"
    using lookupNode_Some_mem[OF x] by (simp add: allNodes_nodesL)
  have "y \<in> set (nodes x)" using y by (subst nodes_childNodes) simp
  then show ?thesis using nodes_sub[OF xin] by (auto simp: allNodes_nodesL)
qed

lemma sleeperAt_charStatus:
  assumes wf: "wf_dom d" and x: "lookupNode s d = Some x"
    and c: "c \<in> set (tr (hasClass charClass) (childNodes x))"
  shows "sleeperAt d c \<longleftrightarrow> (c, True) \<in> set (charStatus (childNodes x))"
proof -
  from c obtain y where y: "y \<in> set (nodesL (childNodes x))" "nid y = c"
    "hasClass charClass (elem y)"
    unfolding tr_nodes by auto
  have yin: "y \<in> set (allNodes d)" by (rule descendants_allNodes[OF x y(1)])
  have l: "lookupNode c d = Some y" using wf_lookupNode[OF wf yin] y(2) by simp
  have "(c, True) \<in> set (charStatus (childNodes x)) \<longleftrightarrow> isSleeperChar y"
  proof
    assume "(c, True) \<in> set (charStatus (childNodes x))"
    then obtain y' where y': "y' \<in> set (nodesL (childNodes x))" "nid y' = c" "isSleeperChar y'"
      unfolding charStatus_def by auto
    have "y' \<in> set (allNodes d)" by (rule descendants_allNodes[OF x y'(1)])
    then have "y' = y" using wf_nid_inj[OF wf _ yin] y'(2) y(2) by simp
    then show "isSleeperChar y" using y'(3) by simp
  next
    assume s: "isSleeperChar y"
    have "(nid y, isSleeperChar y) \<in> set (charStatus (childNodes x))"
      unfolding charStatus_def using y(1,3) by (simp add: image_iff) blast
    then show "(c, True) \<in> set (charStatus (childNodes x))" using s y(2) by simp
  qed
  then show ?thesis by (simp add: sleeperAt_def l)
qed

lemma list_all_charStatus:
  "list_all isSleeperChar (filter (\<lambda>y. hasClass charClass (elem y)) (nodesL ks)) \<longleftrightarrow>
   list_all snd (charStatus ks)"
  by (simp add: charStatus_def list_all_iff)

lemma tr_createToggle:
  "tr (hasClass charClass) [createToggle se i] = []"
  "tr (hasClass noAwakeClass) [createToggle se i] = []"
  "tr levelMarked [createToggle se i] = []"
  "nids [createToggle se i] = [i, i + 1, i + 2]"
  by (simp_all add: createToggle_def tr_def flat_def nids_def nodesL_def hasClass_def levelMarked_def
        createElement_def charClass_def noAwakeClass_def toggleClass_def asleepClass_def
        inactiveClass_def)

lemma tr_noAwakePlaceholder:
  "tr (hasClass charClass) [noAwakePlaceholder i] = []"
  "tr (hasClass noAwakeClass) [noAwakePlaceholder i] = [i]"
  "tr levelMarked [noAwakePlaceholder i] = []"
  "nids [noAwakePlaceholder i] = [i]"
  by (simp_all add: noAwakePlaceholder_def tr_def flat_def nids_def nodesL_def hasClass_def
        levelMarked_def createElement_def charClass_def noAwakeClass_def asleepClass_def
        inactiveClass_def)

lemma nids_cloneNode:
  "nids [cloneNode s n] = [s ..< s + length (nodes n)]"
  "nids (cloneNodes s ks) = [s ..< s + length (nodesL ks)]"
proof (induction s n and s ks rule: cloneNode_cloneNodes.induct)
  case (1 s i e ks)
  have "nids [cloneNode s (Node i e ks)] = s # nids (cloneNodes (Suc s) ks)"
    by (simp add: nids_single nodes_Node_nids del: nodes.simps)
  also have "\<dots> = s # [Suc s ..< Suc s + length (nodesL ks)]" using 1 by simp
  also have "\<dots> = [s ..< s + Suc (length (nodesL ks))]"
    using upt_conv_Cons[of s "s + Suc (length (nodesL ks))"] by simp
  also have "Suc (length (nodesL ks)) = length (nodes (Node i e ks))"
    by (simp add: nodes_Node del: nodes.simps)
  finally show ?case .
next
  case (2 s) show ?case by simp
next
  case (3 s k ks)
  have "nids (cloneNodes s (k # ks)) = nids [cloneNode s k] @ nids (cloneNodes (s + length (nodes k)) ks)"
    using nids_Cons[of "cloneNode s k" "cloneNodes (s + length (nodes k)) ks"]
    by (simp add: nids_single)
  also have "\<dots> = [s ..< s + length (nodes k)] @
                   [s + length (nodes k) ..< s + length (nodes k) + length (nodesL ks)]"
    using 3 by simp
  also have "\<dots> = [s ..< s + length (nodesL (k # ks))]"
    using upt_add_eq_append[of s "s + length (nodes k)" "length (nodesL ks)"]
    by (simp add: nodesL_Cons[of k ks] add.assoc)
  finally show ?case .
qed

lemma nids_mapElems: "nids (map (mapElems g) ns) = nids ns"
  by (simp add: nids_def nodesL_mapElems comp_def nid_mapElems)

lemma nids_cloneSleepers:
  "nids (cloneSleepers s els) = [s ..< s + length (nodesL els)]"
proof (induction els arbitrary: s)
  case Nil show ?case by simp
next
  case (Cons el els)
  have "nids [stripHidden (cloneNode s el)] = [s ..< s + length (nodes el)]"
    unfolding stripHidden_eq withoutHidden_def
    using nids_mapElems[of _ "[cloneNode s el]"] nids_cloneNode(1)[of s el] by simp
  then have "nids (cloneSleepers s (el # els)) =
        [s ..< s + length (nodes el)] @ nids (cloneSleepers (s + length (nodes el)) els)"
    using nids_Cons[of "stripHidden (cloneNode s el)" "cloneSleepers (s + length (nodes el)) els"]
    by (simp add: nids_single)
  also have "\<dots> = [s ..< s + length (nodesL (el # els))]"
    unfolding Cons.IH
    using upt_add_eq_append[of s "s + length (nodes el)" "length (nodesL els)"]
    by (simp add: nodesL_Cons[of el els] add.assoc)
  finally show ?case .
qed

lemma nids_Cons_step: "nids (n # ns) = nid n # nids (childNodes n) @ nids ns"
  using nids_Cons[of n ns] by (simp add: nids_childNodes)

lemma nids_createSleepersSection:
  "nids [createSleepersSection so els i] =
     [i ..< i + 6 + (if els = [] then 1 else length (nodesL els))]"
proof -
  have u: "[i ..< i + 6 + m] = [i, i+1, i+2, i+3, i+4, i+5] @ [i + 6 ..< i + 6 + m]" for m
    using upt_add_eq_append[of i 6 m]
    by (simp add: upt_conv_Cons numeral_eq_Suc)
  show ?thesis
    unfolding u createSleepersSection_def
    by (simp add: nids_Cons_step nids_cloneSleepers upt_conv_Cons)
qed

section \<open>The steps of a pass on the section\<close>

lemma ensureToggle_cases:
  assumes "ensureToggle se ex s d = Inr d'"
  shows "d' = d \<or> (\<exists>p F. splices (createToggle se (freshId d)) F \<and> d' = editDom p F d)"
proof (cases "d' = d")
  case True then show ?thesis by simp
next
  case False
  then obtain p r where "insertBefore p (createToggle se (freshId d)) r d = Inr d'"
    using assms by (auto simp: ensureToggle_def split: if_splits option.splits)
  from insertBefore_edit[OF this] show ?thesis
    using splices_insertBefore by blast
qed

lemma insertSleepersSection_cases:
  assumes "insertSleepersSection s new d = Inr d'"
  shows "\<exists>par F. parentElement s d = Some par \<and> splices new F \<and> d' = editDom (nid par) F d"
proof (cases "nextSibling s d")
  case None
  then obtain par where "parentElement s d = Some par" "d' = appendChild (nid par) new d"
    using assms by (auto simp: insertSleepersSection_def split: option.splits)
  then show ?thesis using splices_append[of new] by (auto simp: appendChild_edit)
next
  case (Some r)
  then obtain par where p: "parentElement s d = Some par"
      and i: "insertBefore (nid par) new r d = Inr d'"
    using assms by (auto simp: insertSleepersSection_def split: option.splits)
  from insertBefore_edit[OF i] p show ?thesis
    using splices_insertBefore by blast
qed

lemma sect_removeNode: "sect s d x \<Longrightarrow> sect s (removeNode i d) (detach i x)"
  by (simp add: sect_def wf_dom_removeNode lookupNode_removeNode)

lemma sect_mapDom: "sect s d x \<Longrightarrow> sect s (mapDom g d) (mapElems g x)"
  by (simp add: sect_def wf_dom_mapDom lookupNode_mapDom)

lemma sect_below_fresh: "sect s d x \<Longrightarrow> s < freshId d"
proof -
  assume a: "sect s d x"
  then have "x \<in> set (allNodes d)" "nid x = s"
    using lookupNode_Some_mem[of s d x] by (simp_all add: sect_def)
  then have "s \<in> set (nids (document d @ detached d))"
    using nids_allNodes[of d, symmetric] by (auto simp: image_iff)
  then show ?thesis by (rule freshId_gt_nids)
qed

lemma sect_editDom:
  assumes s: "sect s d x" and F: "splices new F"
    and n: "distinct (nids [new])" "\<And>i. i \<in> set (nids [new]) \<Longrightarrow> freshId d \<le> i"
  shows "sect s (editDom p F d) (editChildren p F x)"
proof -
  have wf: "wf_dom d" and l: "lookupNode s d = Some x" using s by (simp_all add: sect_def)
  have "s \<notin> set (nids [new])" using sect_below_fresh[OF s] n(2) by fastforce
  then have "lookupNode s (editDom p F d) = Some (editChildren p F x)"
    using lookupNode_editDom[OF F _ wf, of s p] l by simp
  moreover have "wf_dom (editDom p F d)" by (rule wf_dom_editDom[OF F wf n])
  ultimately show ?thesis by (simp add: sect_def)
qed

lemma sect_distinct: "sect s d x \<Longrightarrow> distinct (nids [x])"
proof -
  assume a: "sect s d x"
  then have "x \<in> set (nodesL (document d @ detached d))"
    using lookupNode_Some_mem[of s d x] by (simp add: sect_def allNodes_nodesL)
  moreover have "distinct (nids (document d @ detached d))"
    using a by (simp add: sect_def wf_dom_nids)
  ultimately show ?thesis using distinct_nids_sub by blast
qed

lemma sect_distinct_children: "sect s d x \<Longrightarrow> distinct (nids (childNodes x))"
  using sect_distinct[of s d x] by (cases x) (simp add: nids_single nodes_Node_nids del: nodes.simps)

lemma elQuerySelectorAll_sect:
  assumes "sect s d x" "list_all isSel ss"
  shows "elQuerySelectorAll ss s d = filter (\<lambda>y. matchesAny ss [] (elem y)) (nodesL (childNodes x))"
  using assms by (simp add: sect_def elQuerySelectorAll_def querySelectorAll_Sel_filter)

lemma placeholders_sect:
  "sect s d x \<Longrightarrow> placeholders s d = filter (\<lambda>y. hasClass noAwakeClass (elem y)) (nodesL (childNodes x))"
  unfolding placeholders_def by (subst elQuerySelectorAll_sect) (simp_all add: isSel_def)

lemma charEntries_sect:
  "sect s d x \<Longrightarrow> charEntries s d = filter (\<lambda>y. hasClass charClass (elem y)) (nodesL (childNodes x))"
  unfolding charEntries_def by (subst elQuerySelectorAll_sect) (simp_all add: isSel_def)

lemma findInRoomSection_lookup:
  assumes wf: "wf_dom d" and f: "findInRoomSection d = Some (h, s)"
  shows "\<exists>x. sect s d x"
proof -
  from f obtain x where x: "docQuerySelector [Sel [ByClass ''panelsection'', ByClass ''pageroom--chars'']] d = Some x"
    and s: "s = nid x"
    by (auto simp: findInRoomSection_def split: option.splits)
  have "x \<in> set (docQuerySelectorAll [Sel [ByClass ''panelsection'', ByClass ''pageroom--chars'']] d)"
    using x by (auto simp: docQuerySelector_def split: list.splits)
  then have "x \<in> set (nodesL (document d))"
    by (simp add: docQuerySelectorAll_Sel_filter isSel_def)
  then have "x \<in> set (allNodes d)" by (simp add: allNodes_nodesL nodesL_append)
  then show ?thesis using wf_lookupNode[OF wf] s wf by (auto simp: sect_def)
qed

section \<open>Placeholders and parents\<close>

lemma elQuerySelectorAll_lookup:
  assumes "lookupNode s d = Some x" "list_all isSel ss"
  shows "elQuerySelectorAll ss s d = filter (\<lambda>y. matchesAny ss [] (elem y)) (nodesL (childNodes x))"
  using assms by (simp add: elQuerySelectorAll_def querySelectorAll_Sel_filter)

lemma placeholders_lookup:
  "lookupNode s d = Some x \<Longrightarrow>
   placeholders s d = filter (\<lambda>y. hasClass noAwakeClass (elem y)) (nodesL (childNodes x))"
  unfolding placeholders_def by (subst elQuerySelectorAll_lookup) (simp_all add: isSel_def)

lemma charEntries_lookup:
  "lookupNode s d = Some x \<Longrightarrow>
   charEntries s d = filter (\<lambda>y. hasClass charClass (elem y)) (nodesL (childNodes x))"
  unfolding charEntries_def by (subst elQuerySelectorAll_lookup) (simp_all add: isSel_def)

lemma tr_detachL_Nil:
  assumes "tr Q ks = []"
  shows "tr Q (detachL i ks) = []"
proof -
  have "\<not> Q (elem y')" if "y' \<in> set (nodesL (detachL i ks))" for y'
  proof -
    from detachL_nodes[OF that] obtain y where y: "y \<in> set (nodesL ks)" "y' = detach i y" by blast
    have "\<not> Q (elem y)" using assms y(1) by (auto simp: tr_nodes filter_empty_conv)
    then show ?thesis using y(2) by simp
  qed
  then show ?thesis by (auto simp: tr_nodes filter_empty_conv)
qed

lemma tr_detach_Nil:
  assumes "tr Q [y] = []"
  shows "tr Q [detach i y] = []"
proof -
  have a: "\<not> Q (elem y)" "tr Q (childNodes y) = []"
    using assms by (simp_all add: tr_single_child split: if_splits)
  show ?thesis
    using a tr_detachL_Nil[OF a(2), of i]
    by (simp add: tr_single_child[of Q "detach i y"] childNodes_detach)
qed

lemma length_tr_detachL:
  assumes "distinct (nids ks)"
  shows "length (tr Q (detachL i ks)) \<le> length (tr Q ks)"
proof -
  have "size (mset (tr Q (detachL i ks))) \<le> size (mset (tr Q ks))"
    using arg_cong[OF mset_tr_detachL[OF assms, of Q i], of size] by simp
  then show ?thesis by simp
qed

lemma inert_detachL:
  assumes "inertPlaceholders ks"
  shows "inertPlaceholders (detachL i ks)"
  unfolding inertPlaceholders_def
proof (intro ballI impI)
  fix y' assume y': "y' \<in> set (nodesL (detachL i ks))" and p: "hasClass noAwakeClass (elem y')"
  from detachL_nodes[OF y'] obtain y where y: "y \<in> set (nodesL ks)" "y' = detach i y" by blast
  have "hasClass noAwakeClass (elem y)" using p y(2) by simp
  then have "tr (hasClass charClass) [y] = []" "tr levelMarked [y] = []"
    using assms y(1) by (auto simp: inertPlaceholders_def)
  then show "tr (hasClass charClass) [y'] = [] \<and> tr levelMarked [y'] = []"
    unfolding y(2) by (simp add: tr_detach_Nil)
qed

lemma inert_mapElems:
  assumes g: "touchesOnly hiddenClass g" and i: "inertPlaceholders ks"
  shows "inertPlaceholders (map (mapElems g) ks)"
  unfolding inertPlaceholders_def
proof (intro ballI impI)
  fix y' assume y': "y' \<in> set (nodesL (map (mapElems g) ks))"
    and p: "hasClass noAwakeClass (elem y')"
  from y' obtain y where y: "y \<in> set (nodesL ks)" "y' = mapElems g y"
    by (auto simp: nodesL_mapElems)
  have n: "noAwakeClass \<noteq> hiddenClass" "charClass \<noteq> hiddenClass"
    by (simp_all add: noAwakeClass_def hiddenClass_def charClass_def)
  have "hasClass noAwakeClass (elem y)"
    using p hasClass_touchesOnly[OF g n(1)] by (simp add: y(2) elem_mapElems)
  then have a: "tr (hasClass charClass) [y] = []" "tr levelMarked [y] = []"
    using i y(1) by (auto simp: inertPlaceholders_def)
  have "tr (hasClass charClass) (map (mapElems g) [y]) = tr (hasClass charClass) [y]"
    by (rule tr_mapElems) (rule hasClass_touchesOnly[OF g n(2)])
  moreover have "tr levelMarked (map (mapElems g) [y]) = tr levelMarked [y]"
    by (rule tr_mapElems) (rule levelMarked_touchesOnly[OF g])
  ultimately show "tr (hasClass charClass) [y'] = [] \<and> tr levelMarked [y'] = []"
    using a by (simp add: y(2))
qed

lemma inert_asInjected:
  assumes "list_all asInjectedPlaceholder
             (filter (\<lambda>y. hasClass noAwakeClass (elem y)) (nodesL ks))"
  shows "inertPlaceholders ks"
  unfolding inertPlaceholders_def
proof (intro ballI impI)
  fix y assume "y \<in> set (nodesL ks)" "hasClass noAwakeClass (elem y)"
  then have "asInjectedPlaceholder y" using assms by (simp add: list_all_iff)
  then show "tr (hasClass charClass) [y] = [] \<and> tr levelMarked [y] = []"
    by (simp add: asInjectedPlaceholder_def tr_single_child hasClass_def levelMarked_def
          noAwakeClass_def charClass_def asleepClass_def inactiveClass_def)
qed

lemma nodesL_nid_inj:
  assumes "distinct (nids ks)" "x \<in> set (nodesL ks)" "y \<in> set (nodesL ks)" "nid x = nid y"
  shows "x = y"
proof -
  have "subtreeIn (nid x) ks = Some x" by (rule subtreeIn_unique[OF assms(1,2) refl])
  moreover have "subtreeIn (nid x) ks = Some y"
    by (rule subtreeIn_unique[OF assms(1,3) assms(4)[symmetric]])
  ultimately show ?thesis by (simp only: option.inject)
qed

lemma charStatus_splices:
  assumes F: "splices new F" and c: "tr (hasClass charClass) [new] = []"
  shows "charStatus (F ks) = charStatus ks"
proof -
  obtain m where m: "F ks = take m ks @ new # drop m ks" using F by (auto simp: splices_def)
  have "charStatus (F ks) = charStatus (take m ks) @ charStatus (drop m ks)"
    unfolding m charStatus_splice by (simp add: charStatus_tr_Nil[OF c])
  also have "\<dots> = charStatus ks"
    using charStatus_append[of "take m ks" "drop m ks"] by simp
  finally show ?thesis .
qed

lemma charStatus_childNodes_editChildren:
  assumes F: "splices new F" and c: "tr (hasClass charClass) [new] = []"
    and l: "tr levelMarked [new] = []"
  shows "charStatus (childNodes (editChildren p F x)) = charStatus (childNodes x)"
  by (simp add: childNodes_editChildren charStatus_splices[OF F c]
        charStatus_editChildren[OF F c l])

lemma sleeperAt_descendant:
  assumes "sect s d x" "y \<in> set (nodesL (childNodes x))"
  shows "sleeperAt d (nid y) = isSleeperChar y"
proof -
  have wf: "wf_dom d" and l: "lookupNode s d = Some x" using assms(1) by (simp_all add: sect_def)
  have "lookupNode (nid y) d = Some y"
    by (rule wf_lookupNode[OF wf descendants_allNodes[OF l assms(2)]])
  then show ?thesis by (simp add: sleeperAt_def)
qed

lemma no_awake_iff:
  assumes s: "sect s d x"
  shows "filter (\<lambda>c. \<not> sleeperAt d c) (tr (hasClass charClass) (childNodes x)) = [] \<longleftrightarrow>
         list_all snd (charStatus (childNodes x))"
proof -
  have "filter (\<lambda>c. \<not> sleeperAt d c) (tr (hasClass charClass) (childNodes x)) = [] \<longleftrightarrow>
        (\<forall>y \<in> set (nodesL (childNodes x)). hasClass charClass (elem y) \<longrightarrow> sleeperAt d (nid y))"
    by (auto simp: tr_nodes filter_empty_conv)
  also have "\<dots> \<longleftrightarrow>
        (\<forall>y \<in> set (nodesL (childNodes x)). hasClass charClass (elem y) \<longrightarrow> isSleeperChar y)"
    using sleeperAt_descendant[OF s] by auto
  also have "\<dots> \<longleftrightarrow> list_all snd (charStatus (childNodes x))"
    by (auto simp: charStatus_def list_all_iff)
  finally show ?thesis .
qed

lemma node_parent_in_section:
  assumes s: "sect s d x" and c: "c \<in> set (nids (childNodes x))"
    and q: "parentElement c d = Some q"
  shows "nid q \<in> set (nids [x])"
proof -
  have wf: "wf_dom d" and l: "lookupNode s d = Some x" using s by (simp_all add: sect_def)
  from c obtain y where y: "y \<in> set (nodesL (childNodes x))" "nid y = c"
    by (auto simp: nids_def)
  have "\<exists>q' \<in> set (nodes x). y \<in> set (childNodes q')"
    using child_has_parent[OF y(1)] nodes_self[of x]
    by (subst nodes_childNodes) auto
  then obtain q' where q': "q' \<in> set (nodes x)" "y \<in> set (childNodes q')" by blast
  have xin: "x \<in> set (nodesL (document d @ detached d))"
    using lookupNode_Some_mem[OF l] by (simp add: allNodes_nodesL)
  have "q' \<in> set (allNodes d)" using nodes_sub[OF xin] q'(1) by (auto simp: allNodes_nodesL)
  from parentElement_unique[OF wf this q'(2)] q y(2) have "q = q'" by simp
  then show ?thesis using q'(1) by (auto simp: nids_single)
qed

lemma parent_outside_section:
  assumes s: "sect s d x" and p: "parentElement s d = Some par"
  shows "nid par \<notin> set (nids [x])"
proof
  assume a: "nid par \<in> set (nids [x])"
  have wf: "wf_dom d" and l: "lookupNode s d = Some x" using s by (simp_all add: sect_def)
  have xin: "x \<in> set (nodesL (document d @ detached d))" and nx: "nid x = s"
    using lookupNode_Some_mem[OF l] by (simp_all add: allNodes_nodesL)
  have pin: "par \<in> set (allNodes d)" and ch: "s \<in> nid ` set (childNodes par)"
    using parentElement_Some[OF p] by simp_all
  from a obtain z where z: "z \<in> set (nodes x)" "nid z = nid par" by (auto simp: nids_single)
  have "z \<in> set (allNodes d)" using nodes_sub[OF xin] z(1) by (auto simp: allNodes_nodesL)
  then have "z = par" using wf_nid_inj[OF wf _ pin z(2)] by simp
  then have px: "par \<in> set (nodes x)" using z(1) by simp
  from ch obtain k where k: "k \<in> set (childNodes par)" "nid k = s" by auto
  have kin: "k \<in> set (nodesL (childNodes par))"
    using k(1) nodes_self[of k] by (auto simp: nodesL_def)
  have pall: "par \<in> set (nodesL (document d @ detached d))" using pin by (simp add: allNodes_nodesL)
  have "k \<in> set (nodes par)" using kin by (subst nodes_childNodes) simp
  then have "k \<in> set (allNodes d)" using nodes_sub[OF pall] by (auto simp: allNodes_nodesL)
  then have "k = x" using wf_nid_inj[OF wf _ _ ] lookupNode_Some_mem[OF l] k(2) by simp
  then have "x \<in> set (nodesL (childNodes par))" using kin by simp
  from nids_sub[OF this] a have "nid par \<in> set (nids (childNodes par))" by blast
  moreover have "distinct (nids [par])"
    using distinct_nids_sub[OF _ pall] wf by (simp add: wf_dom_nids)
  ultimately show False by (simp add: nids_single nids_childNodes)
qed

lemma mset_tr_childNodes_editChildren:
  assumes F: "splices new F" and d: "distinct (nids [x])" and p: "p \<in> set (nids [x])"
  shows "mset (tr Q (childNodes (editChildren p F x))) =
         mset (tr Q (childNodes x)) + mset (tr Q [new])"
proof -
  have "mset (tr Q [editChildren p F x]) = mset (tr Q [x]) + mset (tr Q [new])"
    using mset_tr_editChildren[OF F d, of Q p] p by simp
  moreover have "nid (editChildren p F x) = nid x" "elem (editChildren p F x) = elem x"
    by (cases x, simp)+
  ultimately show ?thesis
    by (cases "Q (elem x)")
       (simp_all add: tr_single_child[of Q x] tr_single_child[of Q "editChildren p F x"])
qed

section \<open>The steps of a split pass\<close>

lemma applyFilter_split_steps:
  assumes sec: "findInRoomSection d = Some (header, section)"
    and ret: "applyFilter True sleepersOpen d = Inr d'"
  obtains ex d4 d7 where
    "ensureToggle True ex section
       (removeExistingPlaceholder section
         (resetChars (getCharElements section (removeExistingSleepersSection d))
            (removeExistingSleepersSection d))) = Inr d4"
    "insertSleepersSection section
       (createSleepersSection sleepersOpen
          (deref (filter (sleeperAt d4) (getCharElements section (removeExistingSleepersSection d)))
             (addNoAwakePlaceholder
                (filter (\<lambda>c. \<not> sleeperAt d4 c) (getCharElements section (removeExistingSleepersSection d)))
                (getCharElements section (removeExistingSleepersSection d))
                (mapDom (\<lambda>j e. if j \<in> set (filter (sleeperAt d4) (getCharElements section (removeExistingSleepersSection d)))
                     then classListAdd hiddenClass e else e) d4)))
          (freshId (addNoAwakePlaceholder
                (filter (\<lambda>c. \<not> sleeperAt d4 c) (getCharElements section (removeExistingSleepersSection d)))
                (getCharElements section (removeExistingSleepersSection d))
                (mapDom (\<lambda>j e. if j \<in> set (filter (sleeperAt d4) (getCharElements section (removeExistingSleepersSection d)))
                     then classListAdd hiddenClass e else e) d4))))
       (addNoAwakePlaceholder
                (filter (\<lambda>c. \<not> sleeperAt d4 c) (getCharElements section (removeExistingSleepersSection d)))
                (getCharElements section (removeExistingSleepersSection d))
                (mapDom (\<lambda>j e. if j \<in> set (filter (sleeperAt d4) (getCharElements section (removeExistingSleepersSection d)))
                     then classListAdd hiddenClass e else e) d4)) = Inr d7"
    "d' = filterExitChars True (filter (sleeperAt d4) (getCharElements section (removeExistingSleepersSection d))) d7"
  using ret unfolding applyFilter_def sec
  by (simp add: Let_def classifyChars_eq split: sum.splits)

section \<open>The character classifier\<close>

text \<open>
  C2. \<open>isSleeperChar\<close> answers sleeper exactly when the element itself or one of its
  descendants, at any depth, carries the asleep class or the idle-level-three class. It
  is a function of the element's subtree alone.
\<close>

theorem isSleeperChar_iff:
  "isSleeperChar charEl \<longleftrightarrow>
   (\<exists>x \<in> set (nodes charEl).
      asleepClass \<in> set (classList (elem x)) \<or> inactiveClass \<in> set (classList (elem x)))"
proof -
  let ?ss = "[Sel [ByClass asleepClass], Sel [ByClass inactiveClass]]"
  let ?m = "\<lambda>x. asleepClass \<in> set (classList (elem x)) \<or> inactiveClass \<in> set (classList (elem x))"
  have sel: "list_all isSel ?ss" by (simp add: isSel_def)
  have m: "matchesAny ?ss [] (elem x) = ?m x" for x
    by (simp add: matchesAny_def matchesCompound_def)
  have "querySelector ?ss [] charEl \<noteq> None \<longleftrightarrow>
        filter ?m (nodesL (childNodes charEl)) \<noteq> []"
    unfolding querySelector_def querySelectorAll_Sel_filter[OF sel] m
    by (simp split: list.splits)
  then have q: "querySelector ?ss [] charEl \<noteq> None \<longleftrightarrow>
           (\<exists>x \<in> set (nodesL (childNodes charEl)). ?m x)"
    by (simp only: filter_empty_conv) blast
  show ?thesis
    unfolding isSleeperChar_def q nodes_eq_self_desc[of charEl] by auto
qed

theorem isSleeperChar_iff_witness:
  "isSleeperChar (sampleChar 10 ''a.png'' asleepClass) \<and>
   \<not> isSleeperChar (sampleChar 10 ''a.png'' ''common--level-active'')"
  using isSleeperChar_iff [of "sampleChar 10 ''a.png'' asleepClass"]
        isSleeperChar_iff [of "sampleChar 10 ''a.png'' ''common--level-active''"]
  by (simp add: sampleChar_def createElement_def asleepClass_def inactiveClass_def charClass_def)

section \<open>The sleepers section\<close>





section \<open>Exit thumbnails\<close>



text \<open>
  C10. \<open>filterExitChars\<close> starts by taking the hidden marker off every exit thumbnail
  that carries it, so after the call the hidden thumbnails are exactly those whose
  signature matches one of the sleepers passed in: a thumbnail that was hidden before
  and matches no sleeper now is visible again.
\<close>

theorem filterExitChars_resets_then_hides:
  assumes "wf_dom d"
  shows "(\<forall>x \<in> set (exitEntries (resetExitChars d)). \<not> isHidden x) \<and>
         nid ` {x \<in> set (exitEntries (filterExitChars splitEnabled sleepers d)). isHidden x} =
         nid ` {y \<in> set (exitEntries d).
                  splitEnabled \<and> exitSignature y \<in> Some ` sleeperSignatures sleepers d} \<and>
         (\<forall>y \<in> set (exitEntries d).
            isHidden y \<and> exitSignature y \<notin> Some ` sleeperSignatures sleepers d \<longrightarrow>
            (\<forall>x \<in> set (exitEntries (filterExitChars splitEnabled sleepers d)).
               nid x = nid y \<longrightarrow> \<not> isHidden x))"
proof -
  let ?g = "exitFilterChange splitEnabled sleepers d"
  have t: "touchesOnly hiddenClass ?g" by (rule touchesOnly_exitFilterChange)
  have ex: "exitEntries (filterExitChars splitEnabled sleepers d) = map (mapElems ?g) (exitEntries d)"
    by (simp add: filterExitChars_change exitEntries_mapDom[OF t])
  have h: "isHidden (mapElems ?g y) \<longleftrightarrow>
           splitEnabled \<and> exitSignature y \<in> Some ` sleeperSignatures sleepers d"
    if "y \<in> set (exitEntries d)" for y
    unfolding isHidden_def elem_mapElems by (rule exitFilterChange_hidden[OF assms that])
  have reset: "\<not> isHidden x" if "x \<in> set (exitEntries (resetExitChars d))" for x
  proof -
    let ?r = "\<lambda>j e. if j \<in> nid ` set (docQuerySelectorAll
                        [Sel [ByClass exitCharClass, ByClass hiddenClass]] d)
                  then classListRemove hiddenClass e else e"
    have tr: "touchesOnly hiddenClass ?r" by (rule touchesOnly_ifs)
    from that obtain y where y: "y \<in> set (exitEntries d)" and x: "x = mapElems ?r y"
      by (auto simp: resetExitChars_mapDom exitEntries_mapDom[OF tr])
    show ?thesis
      unfolding x isHidden_def elem_mapElems
      using hidden_exit_in_reset_set[OF assms y]
      by (auto simp: isHidden_def classListRemove_def)
  qed
  have a: "nid ` {x \<in> set (exitEntries (filterExitChars splitEnabled sleepers d)). isHidden x} =
         nid ` {y \<in> set (exitEntries d).
                  splitEnabled \<and> exitSignature y \<in> Some ` sleeperSignatures sleepers d}"
  proof -
    have "{x \<in> set (exitEntries (filterExitChars splitEnabled sleepers d)). isHidden x} =
          mapElems ?g ` {y \<in> set (exitEntries d).
                  splitEnabled \<and> exitSignature y \<in> Some ` sleeperSignatures sleepers d}"
      unfolding ex using h by auto
    then show ?thesis by (simp add: image_image nid_mapElems)
  qed
  have b: "\<not> isHidden x"
    if y: "y \<in> set (exitEntries d)" and n: "exitSignature y \<notin> Some ` sleeperSignatures sleepers d"
      and x: "x \<in> set (exitEntries (filterExitChars splitEnabled sleepers d))" and e: "nid x = nid y"
    for x y
  proof -
    from x obtain z where z: "z \<in> set (exitEntries d)" and xz: "x = mapElems ?g z"
      by (auto simp: ex)
    have "z = y"
      using wf_nid_inj[OF assms exitEntries_allNodes[OF z] exitEntries_allNodes[OF y]] e
      by (simp add: xz nid_mapElems)
    then show ?thesis using h[OF y] n xz by simp
  qed
  show ?thesis using reset a b by blast
qed

theorem filterExitChars_resets_then_hides_witness:
  "wf_dom sampleExitPage \<and>
   list_all (\<lambda>x. \<not> isHidden x) (exitEntries (resetExitChars sampleExitPage)) \<and>
   map (\<lambda>x. (nid x, isHidden x)) (exitEntries sampleExitPage) =
     [(10, True), (12, False), (14, False)] \<and>
   nid ` {x \<in> set (exitEntries (filterExitChars True [20] sampleExitPage)). isHidden x} =
     nid ` {y \<in> set (exitEntries sampleExitPage).
              exitSignature y \<in> Some ` sleeperSignatures [20] sampleExitPage} \<and>
   nid ` {y \<in> set (exitEntries sampleExitPage).
              exitSignature y \<in> Some ` sleeperSignatures [20] sampleExitPage} = {12}"
proof -
  have ev: "map (\<lambda>x. (nid x, isHidden x)) (exitEntries sampleExitPage) =
     [(10, True), (12, False), (14, False)]"
    by code_simp
  have m: "nid ` {y \<in> set (exitEntries sampleExitPage).
              exitSignature y \<in> Some ` sleeperSignatures [20] sampleExitPage} = {12}"
    by code_simp
  show ?thesis
    using filterExitChars_resets_then_hides [OF wf_sampleExitPage, of True "[20]"]
    by (simp add: wf_sampleExitPage ev m list_all_iff)
qed

section \<open>The filter when the room panel is not there\<close>

text \<open>
  C5. When \<open>findInRoomSection\<close> finds no \<open>In room\<close> section, \<open>applyFilter\<close> returns,
  without an exception, and the page is what it was: nothing is created and no node is
  changed.
\<close>

theorem applyFilter_absent_container:
  "findInRoomSection d = None \<Longrightarrow> applyFilter splitEnabled sleepersOpen d = Inr d"
  by (simp add: applyFilter_def)

theorem applyFilter_absent_container_witness:
  "findInRoomSection (page [Node 1 (createElement ''html'') [sampleExit 2 ''a.png'']]) = None \<and>
   applyFilter True False (page [Node 1 (createElement ''html'') [sampleExit 2 ''a.png'']]) =
     Inr (page [Node 1 (createElement ''html'') [sampleExit 2 ''a.png'']])"
proof -
  have h: "findInRoomSection (page [Node 1 (createElement ''html'') [sampleExit 2 ''a.png'']]) = None"
    by (simp add: findInRoomSection_def docQuerySelector_def docQuerySelectorAll_def page_def
          sampleExit_def createElement_def matchesAny_def matchesCompound_def exitCharClass_def)
  show ?thesis
    using h applyFilter_absent_container [OF h, of True False] by simp
qed

section \<open>The mutation observer\<close>

text \<open>
  C9. A mutation whose target carries one of the script's own marker classes should
  not make the observer schedule \<open>applyFilter\<close>. The callback skips targets inside the
  sleepers section or the toggle and targets that carry \<^verbatim>\<open>msf-hidden-char\<close>,
  \<^verbatim>\<open>msf-sleepers-list\<close> or \<^verbatim>\<open>msf-sleepers-arrow\<close>, but not a target that carries
  \<^verbatim>\<open>msf-no-awake-placeholder\<close>: a node added inside the placeholder schedules a call
  after 200 ms.
\<close>

theorem observer_schedules_on_placeholder_mutation:
  "observerCallback [placeholderMutation] None = Some 200"
  by (simp add: observerCallback_def placeholderMutation_def noAwakePlaceholder_def
        skipsMutation_def reactsTo_def classNameString_def closest_def matchesCompound_def
        createElement_def
        noAwakeClass_def hiddenClass_def toggleClass_def sleepersSectionId_def)

end
